theory Spec2Isabelle
  imports Complex_Main "HOL-Library.Word"
begin

unbundle bit_operations_syntax

section \<open>glosm TileManager: the quadtree of tiles, its load queue and its collector\<close>

text \<open>
  A shallow embedding of \<^verbatim>\<open>src/libglosm-client/src/TileManager.cc\<close>.

  Conventions.
  \<^item> A \<^verbatim>\<open>QuadNode*\<close> is a \<open>QuadNode option\<close>: \<open>None\<close> is the NULL pointer, and a node
    owns its four children (the source never aliases nodes), so the tree is a value.
  \<^item> C++ member names end in an underscore, which is not an Isabelle identifier; the
    member \<^verbatim>\<open>queue_\<close> is the field \<open>queue_tm\<close>, and so on.
  \<^item> \<^verbatim>\<open>int\<close> values are mathematical integers; where the source computes a value
    that need not fit 32 bits (\<^verbatim>\<open>level+1\<close>, \<^verbatim>\<open>x*2+1\<close>, \<^verbatim>\<open>1 << (level-1)\<close>) the model
    returns a fault instead of a result, as signed overflow is undefined in C++.
  \<^item> \<^verbatim>\<open>float\<close> distances are real numbers: the source only compares them, and squares
    \<^verbatim>\<open>hires_range_\<close>.
  \<^item> The mutexes and the condition variable are not modelled; each operation is the
    sequential code that runs under its lock. The signal of \<^verbatim>\<open>LoadLocality\<close> is a
    boolean of its result.
\<close>

subsection \<open>Data\<close>

text \<open>Modelled from the spec: the type of the generation counter and of a node's
  stamp is declared in TileManager.hh, which is not among the sources; the spec's data
  model (section 3) gives \<^verbatim>\<open>uint64\<close>.\<close>

type_synonym gen = "64 word"

datatype TileId = TileId (tid_level: int) (tid_x: int) (tid_y: int)

datatype 'b TileTask = TileTask (task_id: TileId) (task_bbox: 'b)

datatype ('b, 't) QuadNode =
  QuadNode (bbox: 'b) (tile: "'t option") (generation: gen)
    (child0: "('b, 't) QuadNode option") (child1: "('b, 't) QuadNode option")
    (child2: "('b, 't) QuadNode option") (child3: "('b, 't) QuadNode option")

datatype fault = SignedOverflow | ShiftOutOfRange

record 'v RecLoadTilesInfo =
  viewer_pos :: 'v
  closest_distance :: real
  queue_size :: int

record ('b, 't) TileManager =
  root_tm :: "('b, 't) QuadNode"
  generation_tm :: gen
  queue_tm :: "'b TileTask list"
  loading_tm :: TileId
  lowres_level_tm :: int
  hires_level_tm :: int
  lowres_range_tm :: real
  hires_range_tm :: real
  thread_die_flag_tm :: bool

text \<open>What the file uses and does not define (glosm's geometry library, the Viewer,
  the tile factory and the declarations of TileManager.hh) is a parameter of the model:
  \<open>ForGeoTile\<close> is \<^verbatim>\<open>BBoxi::ForGeoTile\<close>, \<open>GetPos\<close> is \<^verbatim>\<open>viewer.GetPos(projection_)\<close>,
  \<open>SYNC\<close> is the flag bit, \<open>QuadNode_bbox0\<close> and \<open>QuadNode_generation0\<close> are the
  bounding box and stamp of a default-constructed \<^verbatim>\<open>QuadNode\<close>, and
  \<open>closest_distance0\<close> is the closest distance of a fresh \<^verbatim>\<open>RecLoadTilesInfo\<close>.\<close>

record ('b, 'v, 'w, 't) env =
  ForGeoTile :: "int \<Rightarrow> int \<Rightarrow> int \<Rightarrow> 'b"
  ApproxDistanceSquare :: "'b \<Rightarrow> 'v \<Rightarrow> real"
  Flattened :: "'v \<Rightarrow> 'v"
  GetPos :: "'w \<Rightarrow> 'v"
  SpawnTile :: "'b \<Rightarrow> 't"
  SYNC :: int
  QuadNode_bbox0 :: 'b
  QuadNode_generation0 :: gen
  closest_distance0 :: real

definition int_ok :: "int \<Rightarrow> bool" where
  "int_ok v \<longleftrightarrow> - (2 ^ 31) \<le> v \<and> v < 2 ^ 31"

subsection \<open>Nodes\<close>

text \<open>\<^verbatim>\<open>node->childs[i]\<close>, read and written, and the assignments to a node's fields.\<close>

fun childs :: "('b, 't) QuadNode \<Rightarrow> nat \<Rightarrow> ('b, 't) QuadNode option" where
  "childs (QuadNode b t s c0 c1 c2 c3) i =
     (if i = 0 then c0 else if i = 1 then c1 else if i = 2 then c2 else c3)"

fun set_child ::
  "('b, 't) QuadNode \<Rightarrow> nat \<Rightarrow> ('b, 't) QuadNode option \<Rightarrow> ('b, 't) QuadNode" where
  "set_child (QuadNode b t s c0 c1 c2 c3) i c =
     (if i = 0 then QuadNode b t s c c1 c2 c3
      else if i = 1 then QuadNode b t s c0 c c2 c3
      else if i = 2 then QuadNode b t s c0 c1 c c3
      else QuadNode b t s c0 c1 c2 c)"

fun set_bbox :: "('b, 't) QuadNode \<Rightarrow> 'b \<Rightarrow> ('b, 't) QuadNode" where
  "set_bbox (QuadNode b t s c0 c1 c2 c3) b' = QuadNode b' t s c0 c1 c2 c3"

fun set_tile :: "('b, 't) QuadNode \<Rightarrow> 't option \<Rightarrow> ('b, 't) QuadNode" where
  "set_tile (QuadNode b t s c0 c1 c2 c3) t' = QuadNode b t' s c0 c1 c2 c3"

fun set_generation :: "('b, 't) QuadNode \<Rightarrow> gen \<Rightarrow> ('b, 't) QuadNode" where
  "set_generation (QuadNode b t s c0 c1 c2 c3) s' = QuadNode b t s' c0 c1 c2 c3"

text \<open>Modelled from the spec: the constructor of \<^verbatim>\<open>QuadNode\<close> is declared in
  TileManager.hh, which is not among the sources. By the spec's data model (section 3:
  children are created lazily, never pre-allocated; a tile is attached by placement) a
  fresh node has no tile and no child.\<close>

definition new_QuadNode :: "('b, 'v, 'w, 't) env \<Rightarrow> ('b, 't) QuadNode" where
  "new_QuadNode env =
     QuadNode (QuadNode_bbox0 env) None (QuadNode_generation0 env) None None None None"

subsection \<open>The constructor\<close>

text \<open>Lines 31 to 62. The threads and mutexes are left out; \<^verbatim>\<open>root_\<close> is a member of
  type \<^verbatim>\<open>QuadNode\<close>, default-constructed.\<close>

definition TileManager_new :: "('b, 'v, 'w, 't) env \<Rightarrow> ('b, 't) TileManager" where
  "TileManager_new env =
     \<lparr> root_tm = new_QuadNode env,
       generation_tm = 0,
       queue_tm = [],
       loading_tm = TileId (- 1) (- 1) (- 1),
       lowres_level_tm = 8,
       hires_level_tm = 13,
       lowres_range_tm = 1000000,
       hires_range_tm = 10000,
       thread_die_flag_tm = False \<rparr>"

subsection \<open>RecLoadTiles: the wanted-set walk\<close>

text \<open>Lines 87 to 101: the range check, which creates an absent node that is in range.
  \<open>None\<close> is the early return; otherwise the node and \<^verbatim>\<open>thisdist\<close>.\<close>

definition RecLoadTiles_visit ::
  "('b, 'v, 'w, 't) env \<Rightarrow> ('b, 't) TileManager \<Rightarrow> 'v RecLoadTilesInfo \<Rightarrow>
   ('b, 't) QuadNode option \<Rightarrow> int \<Rightarrow> int \<Rightarrow> int \<Rightarrow> (('b, 't) QuadNode \<times> real) option" where
  "RecLoadTiles_visit env tm info pnode level x y =
     (case pnode of
        None \<Rightarrow>
          (let bb = ForGeoTile env level x y;
               thisdist = ApproxDistanceSquare env bb (Flattened env (viewer_pos info))
           in if thisdist > hires_range_tm tm * hires_range_tm tm then None
              else Some (set_bbox (new_QuadNode env) bb, thisdist))
      | Some node \<Rightarrow>
          (let thisdist = ApproxDistanceSquare env (bbox node) (Flattened env (viewer_pos info))
           in if thisdist > hires_range_tm tm * hires_range_tm tm then None
              else Some (node, thisdist)))"

text \<open>Lines 107 to 127: what the walk does with a node of the target level.\<close>

definition RecLoadTiles_leaf ::
  "('b, 't) TileManager \<Rightarrow> 'v RecLoadTilesInfo \<Rightarrow> ('b, 't) QuadNode \<Rightarrow> real \<Rightarrow>
   int \<Rightarrow> int \<Rightarrow> int \<Rightarrow> ('b, 't) TileManager \<times> 'v RecLoadTilesInfo" where
  "RecLoadTiles_leaf tm info node thisdist level x y =
     (if tile node \<noteq> None then (tm, info)
      else if loading_tm tm \<noteq> TileId level x y then
        (if queue_tm tm = [] then
           (tm\<lparr>queue_tm := TileTask (TileId level x y) (bbox node) # queue_tm tm\<rparr>,
            info\<lparr>closest_distance := thisdist, queue_size := queue_size info + 1\<rparr>)
         else if thisdist < closest_distance info then
           (tm\<lparr>queue_tm := TileTask (TileId level x y) (bbox node) # queue_tm tm\<rparr>,
            info\<lparr>closest_distance := thisdist, queue_size := queue_size info + 1\<rparr>)
         else if queue_size info < 100 then
           (tm\<lparr>queue_tm := queue_tm tm @ [TileTask (TileId level x y) (bbox node)]\<rparr>,
            info\<lparr>queue_size := queue_size info + 1\<rparr>)
         else (tm, info))
      else (tm, info))"

text \<open>Lines 83 to 140. The result is the manager (its queue changed), the info and the
  pointer \<^verbatim>\<open>*pnode\<close>. The four recursive calls run in the source's order, each on the
  state the one before left.\<close>

function RecLoadTiles ::
  "('b, 'v, 'w, 't) env \<Rightarrow> ('b, 't) TileManager \<Rightarrow> 'v RecLoadTilesInfo \<Rightarrow>
   ('b, 't) QuadNode option \<Rightarrow> int \<Rightarrow> int \<Rightarrow> int \<Rightarrow>
   fault + (('b, 't) TileManager \<times> 'v RecLoadTilesInfo \<times> ('b, 't) QuadNode option)" where
  "RecLoadTiles env tm info pnode level x y =
     (case RecLoadTiles_visit env tm info pnode level x y of
        None \<Rightarrow> Inr (tm, info, pnode)
      | Some (n, thisdist) \<Rightarrow>
          (let node = set_generation n (generation_tm tm) in
           if level = hires_level_tm tm then
             (case RecLoadTiles_leaf tm info node thisdist level x y of
                (tm', info') \<Rightarrow> Inr (tm', info', Some node))
           else if \<not> (int_ok (level + 1) \<and> int_ok (x * 2) \<and> int_ok (x * 2 + 1)
                       \<and> int_ok (y * 2) \<and> int_ok (y * 2 + 1)) then Inl SignedOverflow
           else
             (case RecLoadTiles env tm info (child0 node) (level + 1) (x * 2) (y * 2) of
                Inl f \<Rightarrow> Inl f
              | Inr (tm1, info1, c0) \<Rightarrow>
             (case RecLoadTiles env tm1 info1 (child1 node) (level + 1) (x * 2 + 1) (y * 2) of
                Inl f \<Rightarrow> Inl f
              | Inr (tm2, info2, c1) \<Rightarrow>
             (case RecLoadTiles env tm2 info2 (child2 node) (level + 1) (x * 2) (y * 2 + 1) of
                Inl f \<Rightarrow> Inl f
              | Inr (tm3, info3, c2) \<Rightarrow>
             (case RecLoadTiles env tm3 info3 (child3 node) (level + 1) (x * 2 + 1) (y * 2 + 1) of
                Inl f \<Rightarrow> Inl f
              | Inr (tm4, info4, c3) \<Rightarrow>
                  Inr (tm4, info4,
                       Some (QuadNode (bbox node) (tile node) (generation node)
                               c0 c1 c2 c3))))))))"
  by pat_completeness auto
termination
  by (relation "measure (\<lambda>(env, tm, info, pnode, level, x, y). nat (2 ^ 31 - level))")
     (auto simp: int_ok_def)

subsection \<open>RecPlaceTile\<close>

text \<open>Lines 159 and 160: the child the descent takes with \<open>level\<close> levels to go.\<close>

definition nchild :: "int \<Rightarrow> int \<Rightarrow> int \<Rightarrow> nat" where
  "nchild level x y =
     (let mask = push_bit (nat (level - 1)) (1 :: int)
      in nat (push_bit 1 (of_bool (y AND mask \<noteq> 0)) OR of_bool (x AND mask \<noteq> 0)))"

text \<open>Lines 142 to 163. The result is the pointer and whether the tile was deleted.\<close>

function RecPlaceTile ::
  "('b, 't) QuadNode option \<Rightarrow> 't \<Rightarrow> int \<Rightarrow> int \<Rightarrow> int \<Rightarrow>
   fault + (('b, 't) QuadNode option \<times> bool)" where
  "RecPlaceTile None tp level x y = Inr (None, True)"
| "RecPlaceTile (Some node) tp level x y =
     (if level = 0 then
        (if tile node \<noteq> None then Inr (Some node, True)
         else Inr (Some (set_tile node (Some tp)), False))
      else if level < 0 \<or> 31 < level then Inl ShiftOutOfRange
      else
        (case RecPlaceTile (childs node (nchild level x y)) tp (level - 1) x y of
           Inl f \<Rightarrow> Inl f
         | Inr (c, deleted) \<Rightarrow> Inr (Some (set_child node (nchild level x y) c), deleted)))"
  by pat_completeness auto
termination
  by (relation "measure (\<lambda>(n, tp, level, x, y). nat level)") auto

subsection \<open>RecGarbageCollectTiles\<close>

text \<open>Lines 178 to 193, the loop over the four slots unrolled. Destroying a subtree
  (\<^verbatim>\<open>RecDestroyTiles\<close>, \<^verbatim>\<open>delete\<close>) and clearing its slot leaves \<open>None\<close>.\<close>

fun RecGarbageCollectTiles :: "gen \<Rightarrow> ('b, 't) QuadNode \<Rightarrow> ('b, 't) QuadNode" where
  "RecGarbageCollectTiles g (QuadNode b t s c0 c1 c2 c3) =
     QuadNode b t s
       (case c0 of None \<Rightarrow> None
        | Some ch \<Rightarrow> if generation ch \<noteq> g then None else Some (RecGarbageCollectTiles g ch))
       (case c1 of None \<Rightarrow> None
        | Some ch \<Rightarrow> if generation ch \<noteq> g then None else Some (RecGarbageCollectTiles g ch))
       (case c2 of None \<Rightarrow> None
        | Some ch \<Rightarrow> if generation ch \<noteq> g then None else Some (RecGarbageCollectTiles g ch))
       (case c3 of None \<Rightarrow> None
        | Some ch \<Rightarrow> if generation ch \<noteq> g then None else Some (RecGarbageCollectTiles g ch))"

subsection \<open>The public interface and the loading thread\<close>

text \<open>Lines 350 to 355.\<close>

definition GarbageCollect :: "('b, 't) TileManager \<Rightarrow> ('b, 't) TileManager" where
  "GarbageCollect tm =
     tm\<lparr> root_tm := RecGarbageCollectTiles (generation_tm tm) (root_tm tm),
         generation_tm := generation_tm tm + 1 \<rparr>"

text \<open>Modelled from the spec: the constructor of \<^verbatim>\<open>RecLoadTilesInfo\<close> is declared in
  TileManager.hh, which is not among the sources. The count of section 4.4 (the number
  of tasks enqueued so far in this walk) starts at 0.\<close>

definition new_RecLoadTilesInfo :: "('b, 'v, 'w, 't) env \<Rightarrow> 'w \<Rightarrow> int \<Rightarrow> 'v RecLoadTilesInfo" where
  "new_RecLoadTilesInfo env viewer flags =
     \<lparr> viewer_pos = GetPos env viewer,
       closest_distance = closest_distance0 env,
       queue_size = 0 \<rparr>"

text \<open>Lines 326 to 348. The second component of the result is whether
  \<^verbatim>\<open>pthread_cond_signal(&queue_cond_)\<close> ran.\<close>

definition LoadLocality ::
  "('b, 'v, 'w, 't) env \<Rightarrow> ('b, 't) TileManager \<Rightarrow> 'w \<Rightarrow> int \<Rightarrow>
   fault + (('b, 't) TileManager \<times> bool)" where
  "LoadLocality env tm viewer flags =
     (let tm0 = (if flags AND SYNC env = 0 then tm\<lparr>queue_tm := []\<rparr> else tm);
          info = (new_RecLoadTilesInfo env viewer flags)\<lparr>viewer_pos := GetPos env viewer\<rparr>
      in case RecLoadTiles env tm0 info (Some (root_tm tm0)) 0 0 0 of
           Inl f \<Rightarrow> Inl f
         | Inr (tm1, info1, rt) \<Rightarrow>
             (let tm2 = (case rt of None \<Rightarrow> tm1 | Some r \<Rightarrow> tm1\<lparr>root_tm := r\<rparr>)
              in Inr (tm2, flags AND SYNC env = 0 \<and> queue_tm tm2 \<noteq> [])))"

text \<open>Lines 263 to 274 of \<^verbatim>\<open>LoadingThreadFunc\<close>: with an empty queue the thread waits
  (\<open>None\<close>); otherwise it takes the front task and marks it as loading.\<close>

definition LoadingThreadFunc_take ::
  "('b, 't) TileManager \<Rightarrow> ('b TileTask \<times> ('b, 't) TileManager) option" where
  "LoadingThreadFunc_take tm =
     (case queue_tm tm of
        [] \<Rightarrow> None
      | task # rest \<Rightarrow> Some (task, tm\<lparr>queue_tm := rest, loading_tm := task_id task\<rparr>))"

text \<open>Lines 279 to 299 of \<^verbatim>\<open>LoadingThreadFunc\<close>: the tile is spawned and placed, and
  nothing is loading any more.\<close>

definition LoadingThreadFunc_place ::
  "('b, 'v, 'w, 't) env \<Rightarrow> ('b, 't) TileManager \<Rightarrow> 'b TileTask \<Rightarrow> fault + ('b, 't) TileManager" where
  "LoadingThreadFunc_place env tm task =
     (case RecPlaceTile (Some (root_tm tm)) (SpawnTile env (task_bbox task))
             (tid_level (task_id task)) (tid_x (task_id task)) (tid_y (task_id task)) of
        Inl f \<Rightarrow> Inl f
      | Inr (rt, deleted) \<Rightarrow>
          Inr ((case rt of None \<Rightarrow> tm | Some r \<Rightarrow> tm\<lparr>root_tm := r\<rparr>)
                 \<lparr>loading_tm := TileId (- 1) (- 1) (- 1)\<rparr>))"

subsection \<open>Addresses\<close>

text \<open>A node is addressed by the child indices on the way from a root to it.
  \<open>node_at p is\<close> is the node reached from the pointer \<open>p\<close> along \<open>is\<close>, or \<open>None\<close> when a
  node on the way, or the node itself, is absent; \<open>modify_at f p is\<close> changes that
  node, when it exists, and nothing else.\<close>

fun node_at :: "('b, 't) QuadNode option \<Rightarrow> nat list \<Rightarrow> ('b, 't) QuadNode option" where
  "node_at p [] = p"
| "node_at None (i # path) = None"
| "node_at (Some n) (i # path) = node_at (childs n i) path"

fun modify_at ::
  "(('b, 't) QuadNode \<Rightarrow> ('b, 't) QuadNode) \<Rightarrow> ('b, 't) QuadNode option \<Rightarrow> nat list \<Rightarrow>
   ('b, 't) QuadNode option" where
  "modify_at f None path = None"
| "modify_at f (Some n) [] = Some (f n)"
| "modify_at f (Some n) (i # path) = Some (set_child n i (modify_at f (childs n i) path))"

text \<open>The child indices \<^verbatim>\<open>RecPlaceTile\<close> takes on its descent with \<open>level\<close> levels to go
  (lines 159 to 161).\<close>

fun place_path :: "nat \<Rightarrow> int \<Rightarrow> int \<Rightarrow> nat list" where
  "place_path 0 x y = []"
| "place_path (Suc n) x y = nchild (int (Suc n)) x y # place_path n x y"

text \<open>The tile that \<^verbatim>\<open>RecLoadTiles\<close> visits in slot \<open>i\<close> of a node it visits as
  \<open>(level, x, y)\<close> (lines 134 to 137), and the tile it visits at the end of a path.\<close>

fun quadrant :: "TileId \<Rightarrow> nat \<Rightarrow> TileId" where
  "quadrant (TileId level x y) i =
     (if i = 0 then TileId (level + 1) (x * 2) (y * 2)
      else if i = 1 then TileId (level + 1) (x * 2 + 1) (y * 2)
      else if i = 2 then TileId (level + 1) (x * 2) (y * 2 + 1)
      else TileId (level + 1) (x * 2 + 1) (y * 2 + 1))"

fun walk_addr :: "TileId \<Rightarrow> nat list \<Rightarrow> TileId" where
  "walk_addr a [] = a"
| "walk_addr a (i # path) = walk_addr (quadrant a i) path"

subsection \<open>Vocabulary of the statements\<close>

text \<open>Two managers that differ in the queue at most.\<close>

definition same_but_queue :: "('b, 't) TileManager \<Rightarrow> ('b, 't) TileManager \<Rightarrow> bool" where
  "same_but_queue tm tm' \<longleftrightarrow>
     root_tm tm' = root_tm tm \<and> generation_tm tm' = generation_tm tm \<and>
     loading_tm tm' = loading_tm tm \<and> lowres_level_tm tm' = lowres_level_tm tm \<and>
     hires_level_tm tm' = hires_level_tm tm \<and> lowres_range_tm tm' = lowres_range_tm tm \<and>
     hires_range_tm tm' = hires_range_tm tm \<and> thread_die_flag_tm tm' = thread_die_flag_tm tm"

text \<open>The nodes of a subtree, and the nodes of a tree that stand where an earlier
  tree had none: the nodes created in between.\<close>

fun all_nodes :: "('b, 't) QuadNode \<Rightarrow> ('b, 't) QuadNode list" where
  "all_nodes (QuadNode b t s c0 c1 c2 c3) =
     QuadNode b t s c0 c1 c2 c3 #
       (case c0 of None \<Rightarrow> [] | Some c \<Rightarrow> all_nodes c) @
       (case c1 of None \<Rightarrow> [] | Some c \<Rightarrow> all_nodes c) @
       (case c2 of None \<Rightarrow> [] | Some c \<Rightarrow> all_nodes c) @
       (case c3 of None \<Rightarrow> [] | Some c \<Rightarrow> all_nodes c)"

fun created :: "('b, 't) QuadNode option \<Rightarrow> ('b, 't) QuadNode option \<Rightarrow> ('b, 't) QuadNode list" where
  "created old None = []"
| "created None (Some n) = all_nodes n"
| "created (Some (QuadNode b t s c0 c1 c2 c3)) (Some (QuadNode b' t' s' d0 d1 d2 d3)) =
     created c0 d0 @ created c1 d1 @ created c2 d2 @ created c3 d3"

text \<open>A node is marked wanted: it carries the current generation and its bounding
  box is within \<^verbatim>\<open>hires_range_\<close> of the flattened position.\<close>

definition wanted_mark ::
  "('b, 'v, 'w, 't) env \<Rightarrow> ('b, 't) TileManager \<Rightarrow> 'v \<Rightarrow> ('b, 't) QuadNode \<Rightarrow> bool" where
  "wanted_mark env tm pos n \<longleftrightarrow>
     generation n = generation_tm tm \<and>
     ApproxDistanceSquare env (bbox n) (Flattened env pos) \<le> hires_range_tm tm * hires_range_tm tm"


text \<open>The coordinates of the tile at the end of a path from the root: each child index
  contributes its low bit to \<open>x\<close> and its high bit to \<open>y\<close>.\<close>

fun path_x :: "nat list \<Rightarrow> int" where
  "path_x [] = 0"
| "path_x (i # path) = int (i mod 2) * 2 ^ length path + path_x path"

fun path_y :: "nat list \<Rightarrow> int" where
  "path_y [] = 0"
| "path_y (i # path) = int (i div 2) * 2 ^ length path + path_y path"

text \<open>A task stands for a node \<open>k\<close> levels below the pointer \<open>p\<close>, which is visited as the
  tile \<open>a\<close>: the node exists, holds no tile, carries the current generation, and gave
  the task its bounding box, and the task's id is the tile the walk visits there.\<close>

definition task_at ::
  "('b, 't) TileManager \<Rightarrow> ('b, 't) QuadNode option \<Rightarrow> TileId \<Rightarrow> nat \<Rightarrow> 'b TileTask \<Rightarrow> bool" where
  "task_at tm p a k t \<longleftrightarrow>
     (\<exists>path n. length path = k \<and> list_all (\<lambda>i. i < 4) path \<and> task_id t = walk_addr a path \<and>
        node_at p path = Some n \<and> task_bbox t = bbox n \<and> tile n = None \<and>
        generation n = generation_tm tm)"


subsection \<open>The wanted leaves\<close>

text \<open>A tile is in range when the approximate squared distance from the flattened
  position to its bounding box is at most \<^verbatim>\<open>hires_range_\<close> squared; a path from a tile is
  in view when every tile on it is in range; a tree has the boxes of its addresses
  when every node carries the bounding box \<^verbatim>\<open>ForGeoTile\<close> gives for the tile it stands
  for; a path ends at no tile when the node at its end is absent or holds no tile; and
  a path is a candidate when it is in view, ends at no tile, and does not lead to the
  tile that is loading.\<close>

definition in_range ::
  "('b, 'v, 'w, 't) env \<Rightarrow> ('b, 't) TileManager \<Rightarrow> 'v \<Rightarrow> TileId \<Rightarrow> bool" where
  "in_range env tm pos a \<longleftrightarrow>
     ApproxDistanceSquare env (ForGeoTile env (tid_level a) (tid_x a) (tid_y a)) (Flattened env pos)
       \<le> hires_range_tm tm * hires_range_tm tm"

fun in_view ::
  "('b, 'v, 'w, 't) env \<Rightarrow> ('b, 't) TileManager \<Rightarrow> 'v \<Rightarrow> TileId \<Rightarrow> nat list \<Rightarrow> bool" where
  "in_view env tm pos a [] = in_range env tm pos a"
| "in_view env tm pos a (i # path) =
     (in_range env tm pos a \<and> in_view env tm pos (quadrant a i) path)"

fun bboxes_ok :: "('b, 'v, 'w, 't) env \<Rightarrow> TileId \<Rightarrow> ('b, 't) QuadNode \<Rightarrow> bool" where
  "bboxes_ok env a (QuadNode b t s c0 c1 c2 c3) =
     (b = ForGeoTile env (tid_level a) (tid_x a) (tid_y a) \<and>
      (case c0 of None \<Rightarrow> True | Some c \<Rightarrow> bboxes_ok env (quadrant a 0) c) \<and>
      (case c1 of None \<Rightarrow> True | Some c \<Rightarrow> bboxes_ok env (quadrant a 1) c) \<and>
      (case c2 of None \<Rightarrow> True | Some c \<Rightarrow> bboxes_ok env (quadrant a 2) c) \<and>
      (case c3 of None \<Rightarrow> True | Some c \<Rightarrow> bboxes_ok env (quadrant a 3) c))"

definition bboxes_ok_at ::
  "('b, 'v, 'w, 't) env \<Rightarrow> TileId \<Rightarrow> ('b, 't) QuadNode option \<Rightarrow> bool" where
  "bboxes_ok_at env a p = (case p of None \<Rightarrow> True | Some n \<Rightarrow> bboxes_ok env a n)"

definition no_tile :: "('b, 't) QuadNode option \<Rightarrow> nat list \<Rightarrow> bool" where
  "no_tile p path = (case node_at p path of None \<Rightarrow> True | Some n \<Rightarrow> tile n = None)"

definition cand ::
  "('b, 'v, 'w, 't) env \<Rightarrow> ('b, 't) TileManager \<Rightarrow> 'v \<Rightarrow> TileId \<Rightarrow>
   ('b, 't) QuadNode option \<Rightarrow> nat list \<Rightarrow> bool" where
  "cand env tm pos a p path \<longleftrightarrow>
     list_all (\<lambda>i. i < 4) path \<and> in_view env tm pos a path \<and> no_tile p path \<and>
     walk_addr a path \<noteq> loading_tm tm"

text \<open>The ids of the candidates \<open>k\<close> levels below a tile.\<close>

definition enq ::
  "('b, 'v, 'w, 't) env \<Rightarrow> ('b, 't) TileManager \<Rightarrow> 'v \<Rightarrow> TileId \<Rightarrow> ('b, 't) QuadNode option \<Rightarrow>
   nat \<Rightarrow> TileId set" where
  "enq env tm pos a p k = {walk_addr a path | path. length path = k \<and> cand env tm pos a p path}"

text \<open>The tiles of the quadtree, and the property of a geometry that a tile is in
  range whenever one of its four quadrants is: the distance to a box does not exceed
  the distance to a box inside it.\<close>

definition valid_tile :: "TileId \<Rightarrow> bool" where
  "valid_tile a \<longleftrightarrow>
     0 \<le> tid_level a \<and> 0 \<le> tid_x a \<and> tid_x a < 2 ^ nat (tid_level a) \<and>
     0 \<le> tid_y a \<and> tid_y a < 2 ^ nat (tid_level a)"

definition range_monotone ::
  "('b, 'v, 'w, 't) env \<Rightarrow> ('b, 't) TileManager \<Rightarrow> 'v \<Rightarrow> bool" where
  "range_monotone env tm pos \<longleftrightarrow>
     (\<forall>a i. valid_tile a \<and> tid_level a < hires_level_tm tm \<and> i < 4 \<and>
            in_range env tm pos (quadrant a i) \<longrightarrow> in_range env tm pos a)"

text \<open>The set of claim C1: the leaf tiles (the tiles of \<^verbatim>\<open>hires_level_\<close>) that are in
  range, whose node holds no tile, and that are not the tile recorded as loading.\<close>

definition wanted_leaves ::
  "('b, 'v, 'w, 't) env \<Rightarrow> ('b, 't) TileManager \<Rightarrow> 'v \<Rightarrow> TileId set" where
  "wanted_leaves env tm pos =
     {TileId (hires_level_tm tm) x y | x y.
        0 \<le> x \<and> x < 2 ^ nat (hires_level_tm tm) \<and> 0 \<le> y \<and> y < 2 ^ nat (hires_level_tm tm) \<and>
        in_range env tm pos (TileId (hires_level_tm tm) x y) \<and>
        no_tile (Some (root_tm tm)) (place_path (nat (hires_level_tm tm)) x y) \<and>
        TileId (hires_level_tm tm) x y \<noteq> loading_tm tm}"

text \<open>The leaves a walk from the root reaches: the leaf tiles for which every tile on
  the way down from the root, the leaf included, is in range (the walk prunes a
  subtree on the distance of its root, lines 91 and 99), whose node holds no tile, and
  that are not the tile recorded as loading.\<close>

definition reached_leaves ::
  "('b, 'v, 'w, 't) env \<Rightarrow> ('b, 't) TileManager \<Rightarrow> 'v \<Rightarrow> TileId set" where
  "reached_leaves env tm pos =
     {TileId (hires_level_tm tm) x y | x y.
        0 \<le> x \<and> x < 2 ^ nat (hires_level_tm tm) \<and> 0 \<le> y \<and> y < 2 ^ nat (hires_level_tm tm) \<and>
        in_view env tm pos (TileId 0 0 0) (place_path (nat (hires_level_tm tm)) x y) \<and>
        no_tile (Some (root_tm tm)) (place_path (nat (hires_level_tm tm)) x y) \<and>
        TileId (hires_level_tm tm) x y \<noteq> loading_tm tm}"

text \<open>What a walk adds to the queue. From the queue \<open>q\<close> and the count \<open>c\<close> it arrives at
  the queue \<open>q'\<close> and the count \<open>c'\<close> by adding tasks in front and behind; the ids of the
  added tasks are in \<open>E\<close>, they are all of \<open>E\<close> when the count ends below 100, and the
  count has advanced by their number.\<close>

definition adds ::
  "'b TileTask list \<Rightarrow> int \<Rightarrow> 'b TileTask list \<Rightarrow> int \<Rightarrow> TileId set \<Rightarrow> bool" where
  "adds q c q' c' E \<longleftrightarrow>
     (\<exists>fr bk. q' = fr @ q @ bk \<and> task_id ` set (fr @ bk) \<subseteq> E \<and>
        (c' < 100 \<longrightarrow> E \<subseteq> task_id ` set (fr @ bk)) \<and> c' = c + int (length (fr @ bk)))"

text \<open>A sequence of calls of \<^verbatim>\<open>LoadLocality\<close> for one viewer, with the flags of each
  call.\<close>

fun LoadLocality_calls ::
  "('b, 'v, 'w, 't) env \<Rightarrow> ('b, 't) TileManager \<Rightarrow> 'w \<Rightarrow> int list \<Rightarrow>
   fault + ('b, 't) TileManager" where
  "LoadLocality_calls env tm viewer [] = Inr tm"
| "LoadLocality_calls env tm viewer (flags # rest) =
     (case LoadLocality env tm viewer flags of
        Inl f \<Rightarrow> Inl f
      | Inr (tm', signal) \<Rightarrow> LoadLocality_calls env tm' viewer rest)"

text \<open>The queue is not empty, the walk has admitted as many tasks as it holds, no
  more than 100, and no distance can be below the closest recorded.\<close>

definition capped :: "('b, 't) TileManager \<Rightarrow> 'v RecLoadTilesInfo \<Rightarrow> bool" where
  "capped tm info \<longleftrightarrow>
     queue_tm tm \<noteq> [] \<and> closest_distance info \<le> 0 \<and>
     int (length (queue_tm tm)) = queue_size info \<and> queue_size info \<le> 100"

subsection \<open>A concrete geometry\<close>

text \<open>An instance of the parameters, for evaluating the code on concrete inputs: the
  world is a grid of \<open>8192 \<times> 8192\<close> unit squares (the tiles of level 13), the bounding box
  of a tile is its left and bottom edge and its width, the viewer is a grid point, and
  the squared distance from a box to a point is the squared Euclidean distance on the
  grid, in units of \<open>scale\<close>.\<close>

definition axis_gap :: "int \<Rightarrow> int \<Rightarrow> int \<Rightarrow> int" where
  "axis_gap l w p = (if p < l then l - p else if l + w \<le> p then p - (l + w - 1) else 0)"

definition grid_env :: "int \<Rightarrow> (int \<times> int \<times> int, int \<times> int, int \<times> int, nat) env" where
  "grid_env scale =
     \<lparr> ForGeoTile = (\<lambda>level x y.
          (x * 2 ^ nat (13 - level), y * 2 ^ nat (13 - level), 2 ^ nat (13 - level))),
       ApproxDistanceSquare = (\<lambda>(l, b, w) (px, py).
          real_of_int (scale * scale *
            (axis_gap l w px * axis_gap l w px + axis_gap b w py * axis_gap b w py))),
       Flattened = (\<lambda>v. v),
       GetPos = (\<lambda>w. w),
       SpawnTile = (\<lambda>b. 0),
       SYNC = 1,
       QuadNode_bbox0 = (0, 0, 8192),
       QuadNode_generation0 = 0,
       closest_distance0 = 0 \<rparr>"

text \<open>A manager at work, on the grid in units of 5000 with the viewer in the corner
  \<open>(0, 0)\<close>: \<^verbatim>\<open>LoadLocality\<close> has run on a fresh manager, the loading thread has taken the
  first task and placed its tile, the collector has run, and the thread has taken the
  next task, which is loading.\<close>

definition busy_tm :: "(int \<times> int \<times> int, nat) TileManager" where
  "busy_tm =
     (case LoadLocality (grid_env 5000) (TileManager_new (grid_env 5000)) (0, 0) 0 of
        Inl f \<Rightarrow> TileManager_new (grid_env 5000)
      | Inr (tm1, signal) \<Rightarrow>
          (case LoadingThreadFunc_take tm1 of
             None \<Rightarrow> tm1
           | Some (task, tm2) \<Rightarrow>
               (case LoadingThreadFunc_place (grid_env 5000) tm2 task of
                  Inl f \<Rightarrow> tm2
                | Inr tm3 \<Rightarrow>
                    (case LoadingThreadFunc_take (GarbageCollect tm3) of
                       None \<Rightarrow> tm3
                     | Some (task', tm4) \<Rightarrow> tm4))))"

text \<open>A geometry in which the distance to a box can exceed the distance to a box
  inside it: the four tiles of level 1 are out of range and every other tile is at
  distance 0.\<close>

definition steep_env :: "(int \<times> int \<times> int, unit, unit, nat) env" where
  "steep_env =
     \<lparr> ForGeoTile = (\<lambda>level x y. (level, x, y)),
       ApproxDistanceSquare = (\<lambda>(level, x, y) v. if level = 1 then 1000000000 else 0),
       Flattened = (\<lambda>v. v),
       GetPos = (\<lambda>w. w),
       SpawnTile = (\<lambda>b. 0),
       SYNC = 1,
       QuadNode_bbox0 = (0, 0, 0),
       QuadNode_generation0 = 0,
       closest_distance0 = 0 \<rparr>"

section \<open>Garbage collection\<close>

lemmas eval_defs =
  LoadLocality_def grid_env_def axis_gap_def TileManager_new_def new_QuadNode_def
  new_RecLoadTilesInfo_def RecLoadTiles_visit_def RecLoadTiles_leaf_def int_ok_def
  GarbageCollect_def

lemma RecGC_fields [simp]:
  "bbox (RecGarbageCollectTiles g n) = bbox n"
  "tile (RecGarbageCollectTiles g n) = tile n"
  "generation (RecGarbageCollectTiles g n) = generation n"
  by (cases n; simp)+

lemma RecGC_set_generation:
  "RecGarbageCollectTiles g (set_generation n s) = set_generation (RecGarbageCollectTiles g n) s"
  by (cases n) simp

text \<open>Claim C9. \<^verbatim>\<open>GarbageCollect\<close> never destroys or clears the root node: the root
  keeps its bounding box, its tile and its stamp, whatever its stamp is, and the
  collection does not read the stamp of the node it is given (collecting after
  changing that stamp gives the same tree, with the changed stamp).\<close>

theorem C9_root_survives:
  "bbox (root_tm (GarbageCollect tm)) = bbox (root_tm tm) \<and>
   tile (root_tm (GarbageCollect tm)) = tile (root_tm tm) \<and>
   generation (root_tm (GarbageCollect tm)) = generation (root_tm tm) \<and>
   root_tm (GarbageCollect (tm\<lparr>root_tm := set_generation (root_tm tm) s\<rparr>)) =
     set_generation (root_tm (GarbageCollect tm)) s"
  by (simp add: GarbageCollect_def RecGC_set_generation)

lemma gc_slot_twice:
  "(case (case c of None \<Rightarrow> None
          | Some ch \<Rightarrow> if generation ch \<noteq> g then None else Some (RecGarbageCollectTiles g ch)) of
      None \<Rightarrow> None
    | Some ch \<Rightarrow> if generation ch \<noteq> g + 1 then None
                 else Some (RecGarbageCollectTiles (g + 1) ch)) = None"
  by (cases c) simp_all

lemma RecGC_twice:
  "RecGarbageCollectTiles (g + 1) (RecGarbageCollectTiles g n) =
     QuadNode (bbox n) (tile n) (generation n) None None None None"
  by (cases n) (simp add: gc_slot_twice)

text \<open>Claim C2, as the spec states it: a second \<^verbatim>\<open>GarbageCollect\<close> with no
  \<^verbatim>\<open>LoadLocality\<close> in between leaves the tree as the first left it. It does not: after
  one \<^verbatim>\<open>LoadLocality\<close> on a fresh manager (the viewer in the corner tile, only that
  tile in range) the first collection keeps the path to the wanted leaf, and the
  second destroys it.\<close>

theorem C2_second_collect_counterexample:
  "(case LoadLocality (grid_env 20000) (TileManager_new (grid_env 20000)) (0, 0) 0 of
      Inl f \<Rightarrow> False
    | Inr (tm, signal) \<Rightarrow>
        child0 (root_tm (GarbageCollect tm)) \<noteq> None \<and>
        child0 (root_tm (GarbageCollect (GarbageCollect tm))) = None \<and>
        root_tm (GarbageCollect (GarbageCollect tm)) \<noteq> root_tm (GarbageCollect tm))"
  by (simp add: eval_defs)

text \<open>Claim C2, amended. The first collection increments the generation counter, so
  every node it kept carries a stamp that differs from the counter: the second
  \<^verbatim>\<open>GarbageCollect\<close> destroys every child of the root and leaves the root alone, with
  four empty slots. It leaves the tree unchanged exactly when the first collection left
  the root without children, and a third collection changes nothing.\<close>

theorem C2_second_collect_clears:
  "root_tm (GarbageCollect (GarbageCollect tm)) =
     QuadNode (bbox (root_tm tm)) (tile (root_tm tm)) (generation (root_tm tm))
       None None None None \<and>
   generation_tm (GarbageCollect (GarbageCollect tm)) = generation_tm tm + 2 \<and>
   root_tm (GarbageCollect (GarbageCollect (GarbageCollect tm))) =
     root_tm (GarbageCollect (GarbageCollect tm)) \<and>
   (root_tm (GarbageCollect (GarbageCollect tm)) = root_tm (GarbageCollect tm)) =
     (child0 (root_tm (GarbageCollect tm)) = None \<and>
      child1 (root_tm (GarbageCollect tm)) = None \<and>
      child2 (root_tm (GarbageCollect tm)) = None \<and>
      child3 (root_tm (GarbageCollect tm)) = None)"
  apply (simp add: GarbageCollect_def RecGC_twice)
  apply (cases "root_tm tm")
  apply (auto split: option.splits)
  done

section \<open>Placement and addressing\<close>

lemma and_mask_bit: "(x AND 2 ^ n \<noteq> (0::int)) = bit x n"
  using bit_iff_and_push_bit_not_eq_0 [of x n] by (simp add: push_bit_eq_mult)

lemma node_at_None [simp]: "node_at None path = None"
  by (cases path) simp_all

lemma nchild_bits:
  "0 < level \<Longrightarrow> nchild level x y =
     (if bit y (nat (level - 1)) then 2 else 0) + (if bit x (nat (level - 1)) then 1 else 0)"
  by (simp add: nchild_def Let_def and_mask_bit)

lemma nchild_lt4: "0 < level \<Longrightarrow> nchild level x y < 4"
  by (simp add: nchild_bits)

lemma set_child_same [simp]: "set_child n i (childs n i) = n"
  by (cases n) simp

lemma childs_set_child [simp]: "childs (set_child n i c) i = c"
  by (cases n) simp

lemma RecPlaceTile_char:
  "0 \<le> level \<Longrightarrow> level \<le> 31 \<Longrightarrow>
   RecPlaceTile p tp level x y =
     Inr (case node_at p (place_path (nat level) x y) of
            None \<Rightarrow> (p, True)
          | Some n \<Rightarrow>
              if tile n \<noteq> None then (p, True)
              else (modify_at (\<lambda>n. set_tile n (Some tp)) p (place_path (nat level) x y), False))"
proof (induction p tp level x y rule: RecPlaceTile.induct)
  case (1 tp level x y)
  then show ?case by (cases "nat level") simp_all
next
  case (2 node tp level x y)
  show ?case
  proof (cases "level = 0")
    case True
    then show ?thesis by simp
  next
    case False
    with 2 have lv: "0 < level" "level \<le> 31" by simp_all
    then obtain k where k: "nat level = Suc k" "int (Suc k) = level" "nat (level - 1) = k"
      by (cases "nat level") auto
    let ?c = "childs node (nchild level x y)"
    let ?path = "place_path k x y"
    have ih: "RecPlaceTile ?c tp (level - 1) x y =
       Inr (case node_at ?c ?path of
            None \<Rightarrow> (?c, True)
          | Some n \<Rightarrow>
              if tile n \<noteq> None then (?c, True)
              else (modify_at (\<lambda>n. set_tile n (Some tp)) ?c ?path, False))"
      using 2(1) lv False unfolding k by simp
    have path: "place_path (nat level) x y = nchild level x y # ?path"
      using k by simp
    show ?thesis
    proof (cases "node_at ?c ?path")
      case None
      then show ?thesis using lv False by (simp add: ih path)
    next
      case (Some n)
      then show ?thesis using lv False by (simp add: ih path)
    qed
  qed
qed

lemma node_at_modify_at:
  "node_at (modify_at f p path) path = map_option f (node_at p path)"
  by (induction f p path rule: modify_at.induct) simp_all

lemma quadrant_nchild:
  "0 < level \<Longrightarrow> quadrant (TileId l x0 y0) (nchild level x y) =
     TileId (l + 1) (x0 * 2 + of_bool (bit x (nat (level - 1)))) (y0 * 2 + of_bool (bit y (nat (level - 1))))"
  by (simp add: nchild_bits)

lemma walk_addr_place_path:
  "walk_addr (TileId l x0 y0) (place_path n x y) =
     TileId (l + int n) (x0 * 2 ^ n + take_bit n x) (y0 * 2 ^ n + take_bit n y)"
proof (induction n arbitrary: l x0 y0)
  case 0
  then show ?case by simp
next
  case (Suc n)
  have q: "quadrant (TileId l x0 y0) (nchild (int (Suc n)) x y) =
      TileId (l + 1) (x0 * 2 + of_bool (bit x n)) (y0 * 2 + of_bool (bit y n))"
    using quadrant_nchild [of "int (Suc n)" l x0 y0 x y] by simp
  show ?case
    by (simp only: place_path.simps walk_addr.simps q Suc.IH)
       (simp add: take_bit_Suc_from_most algebra_simps)
qed


text \<open>Claim C4. \<^verbatim>\<open>RecPlaceTile\<close> at \<open>(level, x, y)\<close>, for a level from 0 to 31 (the
  levels at which \<^verbatim>\<open>1 << (level-1)\<close> is defined): when the target node or a node on the
  descent path is absent, the tile is deleted and the tree is returned as it was; when
  the target node holds a tile, the new tile is deleted and the tree is returned as it
  was; otherwise the tile is not deleted, and the tree is changed at the target node
  only, which now holds the tile.\<close>

theorem C4_place_tile:
  assumes "0 \<le> level" and "level \<le> 31"
  shows "RecPlaceTile p tp level x y =
     Inr (case node_at p (place_path (nat level) x y) of
            None \<Rightarrow> (p, True)
          | Some n \<Rightarrow>
              if tile n \<noteq> None then (p, True)
              else (modify_at (\<lambda>n. set_tile n (Some tp)) p (place_path (nat level) x y), False)) \<and>
     node_at (modify_at (\<lambda>n. set_tile n (Some tp)) p (place_path (nat level) x y))
         (place_path (nat level) x y) =
       map_option (\<lambda>n. set_tile n (Some tp)) (node_at p (place_path (nat level) x y))"
  using assms by (simp add: RecPlaceTile_char node_at_modify_at)

text \<open>The three cases on a tree of two levels, placing tile 7 at level 1: the slot of
  \<open>(1, 1, 1)\<close> is empty, the node of \<open>(1, 0, 0)\<close> holds tile 5, and the node of
  \<open>(1, 1, 0)\<close> holds no tile.\<close>

theorem C4_place_tile_witness:
  "(0::int) \<le> 1 \<and> (1::int) \<le> 31 \<and>
   RecPlaceTile
     (Some (QuadNode ''root'' None 0
        (Some (QuadNode ''a'' (Some (5::nat)) 0 None None None None))
        (Some (QuadNode ''b'' None 0 None None None None)) None None)) 7 1 1 1 =
   Inr (Some (QuadNode ''root'' None 0
        (Some (QuadNode ''a'' (Some 5) 0 None None None None))
        (Some (QuadNode ''b'' None 0 None None None None)) None None), True) \<and>
   RecPlaceTile
     (Some (QuadNode ''root'' None 0
        (Some (QuadNode ''a'' (Some (5::nat)) 0 None None None None))
        (Some (QuadNode ''b'' None 0 None None None None)) None None)) 7 1 0 0 =
   Inr (Some (QuadNode ''root'' None 0
        (Some (QuadNode ''a'' (Some 5) 0 None None None None))
        (Some (QuadNode ''b'' None 0 None None None None)) None None), True) \<and>
   RecPlaceTile
     (Some (QuadNode ''root'' None 0
        (Some (QuadNode ''a'' (Some (5::nat)) 0 None None None None))
        (Some (QuadNode ''b'' None 0 None None None None)) None None)) 7 1 1 0 =
   Inr (Some (QuadNode ''root'' None 0
        (Some (QuadNode ''a'' (Some 5) 0 None None None None))
        (Some (QuadNode ''b'' (Some 7) 0 None None None None)) None None), False)"
  using C4_place_tile [of 1 "Some (QuadNode ''root'' None 0
        (Some (QuadNode ''a'' (Some (5::nat)) 0 None None None None))
        (Some (QuadNode ''b'' None 0 None None None None)) None None)" 7 1 1]
  by (simp add: nchild_def)

section \<open>The walk, step by step\<close>

declare RecLoadTiles.simps [simp del]

lemma set_generation_fields [simp]:
  "bbox (set_generation n g) = bbox n"
  "tile (set_generation n g) = tile n"
  "generation (set_generation n g) = g"
  "child0 (set_generation n g) = child0 n"
  "child1 (set_generation n g) = child1 n"
  "child2 (set_generation n g) = child2 n"
  "child3 (set_generation n g) = child3 n"
  by (cases n; simp)+

lemma RecLoadTiles_prune:
  "RecLoadTiles_visit env tm info pnode level x y = None \<Longrightarrow>
   RecLoadTiles env tm info pnode level x y = Inr (tm, info, pnode)"
  by (subst RecLoadTiles.simps) simp

lemma RecLoadTiles_at_leaf:
  "RecLoadTiles_visit env tm info pnode level x y = Some (n, d) \<Longrightarrow> level = hires_level_tm tm \<Longrightarrow>
   RecLoadTiles env tm info pnode level x y =
     Inr (fst (RecLoadTiles_leaf tm info (set_generation n (generation_tm tm)) d level x y),
          snd (RecLoadTiles_leaf tm info (set_generation n (generation_tm tm)) d level x y),
          Some (set_generation n (generation_tm tm)))"
  by (subst RecLoadTiles.simps) (simp add: Let_def split: prod.splits)

lemma RecLoadTiles_overflow:
  "RecLoadTiles_visit env tm info pnode level x y = Some (n, d) \<Longrightarrow> level \<noteq> hires_level_tm tm \<Longrightarrow>
   \<not> (int_ok (level + 1) \<and> int_ok (x * 2) \<and> int_ok (x * 2 + 1) \<and> int_ok (y * 2) \<and> int_ok (y * 2 + 1)) \<Longrightarrow>
   RecLoadTiles env tm info pnode level x y = Inl SignedOverflow"
  by (subst RecLoadTiles.simps) (simp add: Let_def)

lemma RecLoadTiles_children:
  "RecLoadTiles_visit env tm info pnode level x y = Some (n, d) \<Longrightarrow> level \<noteq> hires_level_tm tm \<Longrightarrow>
   int_ok (level + 1) \<and> int_ok (x * 2) \<and> int_ok (x * 2 + 1) \<and> int_ok (y * 2) \<and> int_ok (y * 2 + 1) \<Longrightarrow>
   RecLoadTiles env tm info pnode level x y =
     (case RecLoadTiles env tm info (child0 n) (level + 1) (x * 2) (y * 2) of
        Inl f \<Rightarrow> Inl f
      | Inr (tm1, info1, c0) \<Rightarrow>
     (case RecLoadTiles env tm1 info1 (child1 n) (level + 1) (x * 2 + 1) (y * 2) of
        Inl f \<Rightarrow> Inl f
      | Inr (tm2, info2, c1) \<Rightarrow>
     (case RecLoadTiles env tm2 info2 (child2 n) (level + 1) (x * 2) (y * 2 + 1) of
        Inl f \<Rightarrow> Inl f
      | Inr (tm3, info3, c2) \<Rightarrow>
     (case RecLoadTiles env tm3 info3 (child3 n) (level + 1) (x * 2 + 1) (y * 2 + 1) of
        Inl f \<Rightarrow> Inl f
      | Inr (tm4, info4, c3) \<Rightarrow>
          Inr (tm4, info4, Some (QuadNode (bbox n) (tile n) (generation_tm tm) c0 c1 c2 c3))))))"
  by (subst RecLoadTiles.simps) (simp add: Let_def cong: sum.case_cong prod.case_cong)

lemma RecLoadTiles_walk_induct [consumes 1, case_names prune leaf children]:
  assumes run: "RecLoadTiles env tm info pnode level x y = Inr (tm', info', p')"
  assumes prune: "\<And>tm info pnode level x y.
      RecLoadTiles_visit env tm info pnode level x y = None \<Longrightarrow>
      P tm info pnode level x y tm info pnode"
  assumes leaf: "\<And>tm info pnode level x y n d tm' info'.
      RecLoadTiles_visit env tm info pnode level x y = Some (n, d) \<Longrightarrow>
      level = hires_level_tm tm \<Longrightarrow>
      RecLoadTiles_leaf tm info (set_generation n (generation_tm tm)) d level x y = (tm', info') \<Longrightarrow>
      P tm info pnode level x y tm' info' (Some (set_generation n (generation_tm tm)))"
  assumes children: "\<And>tm info pnode level x y n d tm1 info1 c0 tm2 info2 c1 tm3 info3 c2 tm4 info4 c3.
      RecLoadTiles_visit env tm info pnode level x y = Some (n, d) \<Longrightarrow>
      level \<noteq> hires_level_tm tm \<Longrightarrow>
      int_ok (level + 1) \<and> int_ok (x * 2) \<and> int_ok (x * 2 + 1) \<and> int_ok (y * 2) \<and> int_ok (y * 2 + 1) \<Longrightarrow>
      RecLoadTiles env tm info (child0 n) (level + 1) (x * 2) (y * 2) = Inr (tm1, info1, c0) \<Longrightarrow>
      P tm info (child0 n) (level + 1) (x * 2) (y * 2) tm1 info1 c0 \<Longrightarrow>
      RecLoadTiles env tm1 info1 (child1 n) (level + 1) (x * 2 + 1) (y * 2) = Inr (tm2, info2, c1) \<Longrightarrow>
      P tm1 info1 (child1 n) (level + 1) (x * 2 + 1) (y * 2) tm2 info2 c1 \<Longrightarrow>
      RecLoadTiles env tm2 info2 (child2 n) (level + 1) (x * 2) (y * 2 + 1) = Inr (tm3, info3, c2) \<Longrightarrow>
      P tm2 info2 (child2 n) (level + 1) (x * 2) (y * 2 + 1) tm3 info3 c2 \<Longrightarrow>
      RecLoadTiles env tm3 info3 (child3 n) (level + 1) (x * 2 + 1) (y * 2 + 1) = Inr (tm4, info4, c3) \<Longrightarrow>
      P tm3 info3 (child3 n) (level + 1) (x * 2 + 1) (y * 2 + 1) tm4 info4 c3 \<Longrightarrow>
      P tm info pnode level x y tm4 info4
        (Some (QuadNode (bbox n) (tile n) (generation_tm tm) c0 c1 c2 c3))"
  shows "P tm info pnode level x y tm' info' p'"
  using run
proof (induction "nat (2 ^ 31 - level)" arbitrary: tm info pnode level x y tm' info' p'
       rule: less_induct)
  case less
  show ?case
  proof (cases "RecLoadTiles_visit env tm info pnode level x y")
    case None
    with less.prems show ?thesis by (simp add: RecLoadTiles_prune prune)
  next
    case (Some nd)
    then obtain n d where v: "RecLoadTiles_visit env tm info pnode level x y = Some (n, d)"
      by (cases nd) simp
    show ?thesis
    proof (cases "level = hires_level_tm tm")
      case True
      with less.prems v show ?thesis
        by (simp add: RecLoadTiles_at_leaf) (metis leaf prod.collapse)
    next
      case False
      show ?thesis
      proof (cases "int_ok (level + 1) \<and> int_ok (x * 2) \<and> int_ok (x * 2 + 1) \<and> int_ok (y * 2) \<and> int_ok (y * 2 + 1)")
        case no: False
        with less.prems v False show ?thesis by (simp add: RecLoadTiles_overflow)
      next
        case ok: True
        then have m: "nat (2 ^ 31 - (level + 1)) < nat (2 ^ 31 - level)"
          by (simp add: int_ok_def)
        note eq = less.prems [unfolded RecLoadTiles_children [OF v False ok]]
        from eq obtain tm1 info1 c0 where
          r0: "RecLoadTiles env tm info (child0 n) (level + 1) (x * 2) (y * 2) = Inr (tm1, info1, c0)"
          by (auto split: sum.splits)
        from eq r0 obtain tm2 info2 c1 where
          r1: "RecLoadTiles env tm1 info1 (child1 n) (level + 1) (x * 2 + 1) (y * 2) = Inr (tm2, info2, c1)"
          by (auto split: sum.splits)
        from eq r0 r1 obtain tm3 info3 c2 where
          r2: "RecLoadTiles env tm2 info2 (child2 n) (level + 1) (x * 2) (y * 2 + 1) = Inr (tm3, info3, c2)"
          by (auto split: sum.splits)
        from eq r0 r1 r2 obtain tm4 info4 c3 where
          r3: "RecLoadTiles env tm3 info3 (child3 n) (level + 1) (x * 2 + 1) (y * 2 + 1) = Inr (tm4, info4, c3)"
          by (auto split: sum.splits)
        from eq r0 r1 r2 r3 have res: "tm' = tm4" "info' = info4"
          "p' = Some (QuadNode (bbox n) (tile n) (generation_tm tm) c0 c1 c2 c3)"
          by simp_all
        show ?thesis
          unfolding res
          by (rule children [OF v False ok r0 less.hyps [OF m r0] r1 less.hyps [OF m r1]
                r2 less.hyps [OF m r2] r3 less.hyps [OF m r3]])
      qed
    qed
  qed
qed

section \<open>What a walk leaves unchanged\<close>

lemma leaf_frame:
  "RecLoadTiles_leaf tm info node d level x y = (tm', info') \<Longrightarrow>
   same_but_queue tm tm' \<and> viewer_pos info' = viewer_pos info"
  by (auto simp: RecLoadTiles_leaf_def same_but_queue_def split: if_splits)

lemma walk_frame:
  assumes "RecLoadTiles env tm info pnode level x y = Inr (tm', info', p')"
  shows "same_but_queue tm tm' \<and> viewer_pos info' = viewer_pos info"
  using assms
proof (induction rule: RecLoadTiles_walk_induct)
  case (prune tm info pnode level x y)
  then show ?case by (simp add: same_but_queue_def)
next
  case (leaf tm info pnode level x y n d tm' info')
  then show ?case using leaf_frame by blast
next
  case (children tm info pnode level x y n d tm1 info1 c0 tm2 info2 c1 tm3 info3 c2 tm4 info4 c3)
  then show ?case by (simp add: same_but_queue_def)
qed

lemma walk_frame_fields:
  assumes "RecLoadTiles env tm info pnode level x y = Inr (tm', info', p')"
  shows "generation_tm tm' = generation_tm tm" "loading_tm tm' = loading_tm tm"
    "hires_level_tm tm' = hires_level_tm tm" "hires_range_tm tm' = hires_range_tm tm"
    "root_tm tm' = root_tm tm" "viewer_pos info' = viewer_pos info"
  using walk_frame [OF assms] by (simp_all add: same_but_queue_def)

lemma leaf_queue:
  "RecLoadTiles_leaf tm info node d level x y = (tm', info') \<Longrightarrow>
   (\<exists>front back. queue_tm tm' = front @ queue_tm tm @ back) \<and>
   queue_size info' = queue_size info + (int (length (queue_tm tm')) - int (length (queue_tm tm)))"
  apply (auto simp: RecLoadTiles_leaf_def split: if_splits)
     apply (metis append_Cons append_Nil append_Nil2)
    apply (metis append_Cons append_Nil append_Nil2)
   apply (metis append_Nil)
  apply (metis append_Nil append_Nil2)+
  done

lemma walk_queue:
  assumes "RecLoadTiles env tm info pnode level x y = Inr (tm', info', p')"
  shows "(\<exists>front back. queue_tm tm' = front @ queue_tm tm @ back) \<and>
   queue_size info' = queue_size info + (int (length (queue_tm tm')) - int (length (queue_tm tm)))"
  using assms
proof (induction rule: RecLoadTiles_walk_induct)
  case (prune tm info pnode level x y)
  have "queue_tm tm = [] @ queue_tm tm @ []" by simp
  then show ?case by fastforce
next
  case (leaf tm info pnode level x y n d tm' info')
  then show ?case using leaf_queue by blast
next
  case (children tm info pnode level x y n d tm1 info1 c0 tm2 info2 c1 tm3 info3 c2 tm4 info4 c3)
  from children.IH obtain f1 b1 f2 b2 f3 b3 f4 b4 where
    q: "queue_tm tm1 = f1 @ queue_tm tm @ b1" "queue_tm tm2 = f2 @ queue_tm tm1 @ b2"
       "queue_tm tm3 = f3 @ queue_tm tm2 @ b3" "queue_tm tm4 = f4 @ queue_tm tm3 @ b4"
    by blast
  have "queue_tm tm4 = (f4 @ f3 @ f2 @ f1) @ queue_tm tm @ (b1 @ b2 @ b3 @ b4)"
    by (simp add: q)
  moreover have "queue_size info4 =
      queue_size info + (int (length (queue_tm tm4)) - int (length (queue_tm tm)))"
    using children.IH by simp
  ultimately show ?case by blast
qed

lemma walk_Some:
  assumes "RecLoadTiles env tm info pnode level x y = Inr (tm', info', p')"
  shows "pnode \<noteq> None \<longrightarrow> p' \<noteq> None"
  using assms
  by (induction rule: RecLoadTiles_walk_induct) simp_all

section \<open>Pruning and the nodes a walk creates\<close>

lemma visit_absent_far:
  "hires_range_tm tm * hires_range_tm tm <
     ApproxDistanceSquare env (ForGeoTile env level x y) (Flattened env (viewer_pos info)) \<Longrightarrow>
   RecLoadTiles_visit env tm info None level x y = None"
  by (simp add: RecLoadTiles_visit_def Let_def)

lemmas walk_eval = RecLoadTiles.simps eval_defs

text \<open>Claim C3, as the spec states it: when the walk visits a position that has no
  node and is out of range, a node freshly created at this visit exists afterwards,
  not marked with the current generation. It does not: the walk tests the range
  before it creates the node (lines 89 to 93), and the slot is as empty after the visit
  as before. Here the viewer is in the corner tile and the walk visits the absent tile
  \<open>(1, 1, 1)\<close>, which is out of range.\<close>

theorem C3_prune_absent_counterexample:
  "RecLoadTiles (grid_env 20000) (TileManager_new (grid_env 20000))
      (new_RecLoadTilesInfo (grid_env 20000) (0, 0) 0) None 1 1 1 =
    Inr (TileManager_new (grid_env 20000), new_RecLoadTilesInfo (grid_env 20000) (0, 0) 0, None) \<and>
   \<not> (\<exists>tm' info' n.
        RecLoadTiles (grid_env 20000) (TileManager_new (grid_env 20000))
          (new_RecLoadTilesInfo (grid_env 20000) (0, 0) 0) None 1 1 1 = Inr (tm', info', Some n))"
  by (simp add: walk_eval)

text \<open>Claim C3, amended. When the walk visits a position that has no node and whose
  approximate squared distance to the viewer exceeds \<^verbatim>\<open>hires_range_\<close> squared, it
  prunes the branch without creating the node: it returns at once, the slot stays
  empty, and the queue and the walk's info are unchanged.\<close>

theorem C3_prune_absent:
  assumes "hires_range_tm tm * hires_range_tm tm <
     ApproxDistanceSquare env (ForGeoTile env level x y) (Flattened env (viewer_pos info))"
  shows "RecLoadTiles env tm info None level x y = Inr (tm, info, None)"
  using assms by (simp add: RecLoadTiles_prune visit_absent_far)

theorem C3_prune_absent_witness:
  "hires_range_tm (TileManager_new (grid_env 20000)) *
     hires_range_tm (TileManager_new (grid_env 20000)) <
     ApproxDistanceSquare (grid_env 20000) (ForGeoTile (grid_env 20000) 1 1 1)
       (Flattened (grid_env 20000) (viewer_pos (new_RecLoadTilesInfo (grid_env 20000) (0, 0) 0))) \<and>
   RecLoadTiles (grid_env 20000) (TileManager_new (grid_env 20000))
      (new_RecLoadTilesInfo (grid_env 20000) (0, 0) 0) None 1 1 1 =
    Inr (TileManager_new (grid_env 20000), new_RecLoadTilesInfo (grid_env 20000) (0, 0) 0, None)"
  using C3_prune_absent [of "TileManager_new (grid_env 20000)" "grid_env 20000" 1 1 1
      "new_RecLoadTilesInfo (grid_env 20000) (0, 0) 0"]
  by (simp add: eval_defs)

lemma created_same_node: "created (Some n) (Some n) = []"
proof (induction n)
  case (QuadNode b t s c0 c1 c2 c3)
  have "created c c = []" if "\<And>z. z \<in> set_option c \<Longrightarrow> created (Some z) (Some z) = []" for c
    using that by (cases c) auto
  with QuadNode show ?case by (simp; blast)
qed

lemma created_same [simp]: "created p p = []"
  by (cases p) (simp_all add: created_same_node)

lemma visit_None_cases:
  "RecLoadTiles_visit env tm info None level x y = Some (n, d) \<Longrightarrow>
   n = QuadNode (ForGeoTile env level x y) None (QuadNode_generation0 env) None None None None \<and>
   d = ApproxDistanceSquare env (ForGeoTile env level x y) (Flattened env (viewer_pos info)) \<and>
   d \<le> hires_range_tm tm * hires_range_tm tm"
  by (auto simp: RecLoadTiles_visit_def Let_def new_QuadNode_def split: if_splits)

lemma visit_Some_cases:
  "RecLoadTiles_visit env tm info (Some m) level x y = Some (n, d) \<Longrightarrow>
   n = m \<and> d = ApproxDistanceSquare env (bbox m) (Flattened env (viewer_pos info)) \<and>
   d \<le> hires_range_tm tm * hires_range_tm tm"
  by (auto simp: RecLoadTiles_visit_def Let_def split: if_splits)

lemma walk_created:
  assumes "RecLoadTiles env tm info pnode level x y = Inr (tm', info', p')"
  shows "list_all (wanted_mark env tm (viewer_pos info)) (created pnode p')"
  using assms
proof (induction rule: RecLoadTiles_walk_induct)
  case (prune tm info pnode level x y)
  then show ?case by simp
next
  case (leaf tm info pnode level x y n d tm' info')
  show ?case
  proof (cases pnode)
    case None
    with leaf show ?thesis
      by (auto dest!: visit_None_cases simp: wanted_mark_def)
  next
    case (Some m)
    with leaf have "n = m" by (auto dest: visit_Some_cases)
    with Some show ?thesis by (cases m) simp
  qed
next
  case (children tm info pnode level x y n d tm1 info1 c0 tm2 info2 c1 tm3 info3 c2 tm4 info4 c3)
  note f1 = walk_frame_fields [OF children.hyps(4)]
  note f2 = walk_frame_fields [OF children.hyps(5)]
  note f3 = walk_frame_fields [OF children.hyps(6)]
  have m: "wanted_mark env tm1 (viewer_pos info1) = wanted_mark env tm (viewer_pos info)"
      "wanted_mark env tm2 (viewer_pos info2) = wanted_mark env tm (viewer_pos info)"
      "wanted_mark env tm3 (viewer_pos info3) = wanted_mark env tm (viewer_pos info)"
    using f1 f2 f3 by (simp_all add: wanted_mark_def fun_eq_iff)
  note ih = children.IH [unfolded m]
  show ?case
  proof (cases pnode)
    case None
    with children.hyps(1) have n: "n = QuadNode (ForGeoTile env level x y) None (QuadNode_generation0 env) None None None None"
      and d: "ApproxDistanceSquare env (ForGeoTile env level x y) (Flattened env (viewer_pos info)) \<le> hires_range_tm tm * hires_range_tm tm"
      by (auto dest!: visit_None_cases)
    have "wanted_mark env tm (viewer_pos info) (QuadNode (bbox n) (tile n) (generation_tm tm) c0 c1 c2 c3)"
      using n d by (simp add: wanted_mark_def)
    moreover have "list_all (wanted_mark env tm (viewer_pos info)) (created None c)"
         if "list_all (wanted_mark env tm (viewer_pos info)) (created None c)" for c
      using that .
    ultimately show ?thesis
      using None ih n
      by (auto split: option.splits simp: list_all_iff) 
  next
    case (Some m)
    with children.hyps(1) have "n = m" by (auto dest: visit_Some_cases)
    with Some ih show ?thesis by (cases m) simp
  qed
qed

lemma LoadLocality_unfold:
  "LoadLocality env tm viewer flags =
     (case RecLoadTiles env (if flags AND SYNC env = 0 then tm\<lparr>queue_tm := []\<rparr> else tm)
             (new_RecLoadTilesInfo env viewer flags) (Some (root_tm tm)) 0 0 0 of
        Inl f \<Rightarrow> Inl f
      | Inr (tm1, info1, rt) \<Rightarrow>
          Inr (case rt of None \<Rightarrow> tm1 | Some r \<Rightarrow> tm1\<lparr>root_tm := r\<rparr>,
               flags AND SYNC env = 0 \<and> queue_tm tm1 \<noteq> []))"
proof -
  have i: "(new_RecLoadTilesInfo env viewer flags)\<lparr>viewer_pos := GetPos env viewer\<rparr> =
      new_RecLoadTilesInfo env viewer flags"
    by (simp add: new_RecLoadTilesInfo_def)
  show ?thesis
    unfolding LoadLocality_def Let_def i
    by (auto split: sum.splits option.splits)
qed

text \<open>Claim C10. Every node a walk creates (a node of the tree it returns, at a
  place where the tree it was given had none) is marked wanted: it carries the current
  generation, and its bounding box is within \<^verbatim>\<open>hires_range_\<close> squared of the viewer's
  flattened position. This holds of every call of \<^verbatim>\<open>RecLoadTiles\<close>, and so of the tree
  \<^verbatim>\<open>LoadLocality\<close> leaves.\<close>

theorem C10_created_nodes_marked:
  "(RecLoadTiles env tm info pnode level x y = Inr (tm', info', p') \<longrightarrow>
      list_all (wanted_mark env tm (viewer_pos info)) (created pnode p')) \<and>
   (LoadLocality env tm viewer flags = Inr (tm'', signal) \<longrightarrow>
      list_all (wanted_mark env tm (GetPos env viewer))
        (created (Some (root_tm tm)) (Some (root_tm tm''))))"
proof -
  have "list_all (wanted_mark env tm (GetPos env viewer))
        (created (Some (root_tm tm)) (Some (root_tm tm'')))"
    if r: "LoadLocality env tm viewer flags = Inr (tm'', signal)"
  proof -
    let ?tm0 = "if flags AND SYNC env = 0 then tm\<lparr>queue_tm := []\<rparr> else tm"
    from r obtain tm1 info1 rt where
      w: "RecLoadTiles env ?tm0 (new_RecLoadTilesInfo env viewer flags) (Some (root_tm tm)) 0 0 0 =
            Inr (tm1, info1, rt)"
      and t: "tm'' = (case rt of None \<Rightarrow> tm1 | Some r \<Rightarrow> tm1\<lparr>root_tm := r\<rparr>)"
      by (auto simp: LoadLocality_unfold split: sum.splits)
    from walk_Some [OF w] obtain r where rt: "rt = Some r" by auto
    have m: "wanted_mark env ?tm0 = wanted_mark env tm"
      by (simp add: wanted_mark_def fun_eq_iff)
    from walk_created [OF w] have "list_all (wanted_mark env tm (GetPos env viewer))
        (created (Some (root_tm tm)) rt)"
      by (simp add: m new_RecLoadTilesInfo_def)
    then show ?thesis by (simp add: t rt)
  qed
  then show ?thesis using walk_created by blast
qed

text \<open>One \<^verbatim>\<open>LoadLocality\<close> on a fresh manager, the viewer in the corner tile and only
  that tile in range: the walk creates the thirteen nodes below the root on the way to
  the leaf, and all are marked.\<close>

theorem C10_created_nodes_marked_witness:
  "(case LoadLocality (grid_env 20000) (TileManager_new (grid_env 20000)) (0, 0) 0 of
      Inl f \<Rightarrow> False
    | Inr (tm', signal) \<Rightarrow>
        length (created (Some (root_tm (TileManager_new (grid_env 20000)))) (Some (root_tm tm'))) = 13 \<and>
        list_all (wanted_mark (grid_env 20000) (TileManager_new (grid_env 20000)) (0, 0))
          (created (Some (root_tm (TileManager_new (grid_env 20000)))) (Some (root_tm tm'))))"
proof -
  let ?E = "grid_env 20000"
  let ?T = "TileManager_new ?E"
  have "\<exists>tm' signal. LoadLocality ?E ?T (0, 0) 0 = Inr (tm', signal) \<and>
      length (created (Some (root_tm ?T)) (Some (root_tm tm'))) = 13"
    by (simp add: walk_eval) blast
  then obtain tm' signal where r: "LoadLocality ?E ?T (0, 0) 0 = Inr (tm', signal)"
    and n: "length (created (Some (root_tm ?T)) (Some (root_tm tm'))) = 13"
    by blast
  have g: "GetPos ?E (0, 0) = (0, 0)" by (simp add: grid_env_def)
  from C10_created_nodes_marked [where env = ?E and tm = ?T and viewer = "(0, 0)"
      and flags = 0 and tm'' = tm' and signal = signal] r
  have "list_all (wanted_mark ?E ?T (0, 0)) (created (Some (root_tm ?T)) (Some (root_tm tm')))"
    by (simp only: g simp_thms)
  with n show ?thesis by (simp only: r sum.case prod.case simp_thms)
qed

section \<open>Admission to the queue\<close>

lemma leaf_admit_empty:
  "tile node = None \<Longrightarrow> loading_tm tm \<noteq> TileId level x y \<Longrightarrow> queue_tm tm = [] \<Longrightarrow>
   RecLoadTiles_leaf tm info node d level x y =
     (tm\<lparr>queue_tm := [TileTask (TileId level x y) (bbox node)]\<rparr>,
      info\<lparr>closest_distance := d, queue_size := queue_size info + 1\<rparr>)"
  by (simp add: RecLoadTiles_leaf_def)

lemma leaf_admit_nonempty:
  "tile node = None \<Longrightarrow> loading_tm tm \<noteq> TileId level x y \<Longrightarrow> queue_tm tm \<noteq> [] \<Longrightarrow>
   RecLoadTiles_leaf tm info node d level x y =
     (if d < closest_distance info then
        (tm\<lparr>queue_tm := TileTask (TileId level x y) (bbox node) # queue_tm tm\<rparr>,
         info\<lparr>closest_distance := d, queue_size := queue_size info + 1\<rparr>)
      else if queue_size info < 100 then
        (tm\<lparr>queue_tm := queue_tm tm @ [TileTask (TileId level x y) (bbox node)]\<rparr>,
         info\<lparr>queue_size := queue_size info + 1\<rparr>)
      else (tm, info))"
  by (simp add: RecLoadTiles_leaf_def)

text \<open>Claim C5. Two candidates of one walk: \<open>A\<close>, visited with an empty queue (and
  fewer than 99 tasks admitted so far, as for the first candidate of a walk), and \<open>B\<close>,
  visited next, whose distance is not strictly less than that of \<open>A\<close> (10 and 50 in the
  claim). \<open>A\<close> is pushed to the front and its distance recorded as the closest, \<open>B\<close> is
  pushed to the back and the recorded closest distance stays, and the loading thread
  takes \<open>A\<close> and then \<open>B\<close>.\<close>

theorem C5_admission_order:
  assumes empty: "queue_tm tm = []" and few: "queue_size info < 99"
    and lv: "level = hires_level_tm tm"
    and A: "RecLoadTiles_visit env tm info pa level xa ya = Some (na, da)"
      "tile na = None" "loading_tm tm \<noteq> TileId level xa ya"
    and walkA: "RecLoadTiles env tm info pa level xa ya = Inr (tm1, info1, pa')"
    and B: "RecLoadTiles_visit env tm1 info1 pb level xb yb = Some (nb, db)"
      "tile nb = None" "loading_tm tm \<noteq> TileId level xb yb"
    and far: "\<not> db < da"
    and walkB: "RecLoadTiles env tm1 info1 pb level xb yb = Inr (tm2, info2, pb')"
  shows "queue_tm tm1 = [TileTask (TileId level xa ya) (bbox na)] \<and>
    closest_distance info1 = da \<and>
    queue_tm tm2 = [TileTask (TileId level xa ya) (bbox na), TileTask (TileId level xb yb) (bbox nb)] \<and>
    closest_distance info2 = da \<and>
    LoadingThreadFunc_take tm2 =
      Some (TileTask (TileId level xa ya) (bbox na),
            tm2\<lparr>queue_tm := [TileTask (TileId level xb yb) (bbox nb)],
                loading_tm := TileId level xa ya\<rparr>) \<and>
    LoadingThreadFunc_take
       (tm2\<lparr>queue_tm := [TileTask (TileId level xb yb) (bbox nb)],
            loading_tm := TileId level xa ya\<rparr>) =
      Some (TileTask (TileId level xb yb) (bbox nb),
            tm2\<lparr>queue_tm := [], loading_tm := TileId level xb yb\<rparr>)"
proof -
  have 1: "tm1 = tm\<lparr>queue_tm := [TileTask (TileId level xa ya) (bbox na)]\<rparr>"
    "info1 = info\<lparr>closest_distance := da, queue_size := queue_size info + 1\<rparr>"
    using walkA A empty lv
    by (simp_all add: RecLoadTiles_at_leaf leaf_admit_empty)
  have lv1: "level = hires_level_tm tm1" "loading_tm tm1 \<noteq> TileId level xb yb" "queue_tm tm1 \<noteq> []"
    using 1 lv B by simp_all
  have 2: "tm2 = tm1\<lparr>queue_tm := queue_tm tm1 @ [TileTask (TileId level xb yb) (bbox nb)]\<rparr>"
    "closest_distance info2 = closest_distance info1"
    using walkB B(1,2) lv1 far 1(2) few
    by (auto simp add: RecLoadTiles_at_leaf leaf_admit_nonempty split: if_splits)
  show ?thesis
    using 1 2 by (simp add: LoadingThreadFunc_take_def)
qed

text \<open>The first candidate at distance 10 and the second at distance 50, as in the
  claim: the viewer at the grid point \<open>(0, 0)\<close>, the tiles \<open>(13, 1, 3)\<close> and \<open>(13, 5, 5)\<close>.\<close>

theorem C5_admission_order_witness:
  "(case RecLoadTiles (grid_env 1) (TileManager_new (grid_env 1))
           (new_RecLoadTilesInfo (grid_env 1) (0, 0) 0) None 13 1 3 of
      Inl f \<Rightarrow> False
    | Inr (tm1, info1, pa) \<Rightarrow>
        closest_distance info1 = 10 \<and>
        (case RecLoadTiles (grid_env 1) tm1 info1 None 13 5 5 of
           Inl f \<Rightarrow> False
         | Inr (tm2, info2, pb) \<Rightarrow>
             queue_tm tm2 = [TileTask (TileId 13 1 3) (1, 3, 1), TileTask (TileId 13 5 5) (5, 5, 1)] \<and>
             map_option fst (LoadingThreadFunc_take tm2) = Some (TileTask (TileId 13 1 3) (1, 3, 1))))"
proof -
  let ?E = "grid_env 1"
  let ?T = "TileManager_new ?E"
  let ?I = "new_RecLoadTilesInfo ?E (0, 0) 0"
  let ?T1 = "?T\<lparr>queue_tm := [TileTask (TileId 13 1 3) (1, 3, 1)]\<rparr>"
  let ?I1 = "?I\<lparr>closest_distance := 10, queue_size := 1\<rparr>"
  let ?T2 = "?T\<lparr>queue_tm := [TileTask (TileId 13 1 3) (1, 3, 1), TileTask (TileId 13 5 5) (5, 5, 1)]\<rparr>"
  let ?I2 = "?I\<lparr>closest_distance := 10, queue_size := 2\<rparr>"
  let ?na = "QuadNode (1, 3, 1) None 0 None None None None :: (int \<times> int \<times> int, nat) QuadNode"
  let ?nb = "QuadNode (5, 5, 1) None 0 None None None None :: (int \<times> int \<times> int, nat) QuadNode"
  have h1: "queue_tm ?T = []" by (simp add: TileManager_new_def)
  have h2: "queue_size ?I < 99" by (simp add: new_RecLoadTilesInfo_def)
  have h3: "(13::int) = hires_level_tm ?T" by (simp add: TileManager_new_def)
  have h4: "RecLoadTiles_visit ?E ?T ?I None 13 1 3 = Some (?na, 10)"
    by (simp add: eval_defs)
  have h5: "tile ?na = None" by simp
  have h6: "loading_tm ?T \<noteq> TileId 13 1 3" by (simp add: TileManager_new_def)
  have h7: "RecLoadTiles ?E ?T ?I None 13 1 3 = Inr (?T1, ?I1, Some ?na)"
    by (simp add: walk_eval)
  have h8: "RecLoadTiles_visit ?E ?T1 ?I1 None 13 5 5 = Some (?nb, 50)"
    by (simp add: eval_defs)
  have h9: "tile ?nb = None" by simp
  have h10: "loading_tm ?T \<noteq> TileId 13 5 5" by (simp add: TileManager_new_def)
  have h11: "\<not> (50 :: real) < 10" by simp
  have h12: "RecLoadTiles ?E ?T1 ?I1 None 13 5 5 = Inr (?T2, ?I2, Some ?nb)"
    by (simp add: walk_eval)
  note r = C5_admission_order [OF h1 h2 h3 h4 h5 h6 h7 h8 h9 h10 h11 h12]
  from r have "queue_tm ?T2 = [TileTask (TileId 13 1 3) (1, 3, 1), TileTask (TileId 13 5 5) (5, 5, 1)]"
     and "map_option fst (LoadingThreadFunc_take ?T2) = Some (TileTask (TileId 13 1 3) (1, 3, 1))"
     and "closest_distance ?I1 = 10"
    by simp_all
  then show ?thesis
    by (simp only: h7 h12 sum.case prod.case simp_thms)
qed

text \<open>Claim C6. A candidate that finds the queue non-empty: when its distance is
  strictly less than the closest recorded, it is pushed to the front whatever the
  count; otherwise it is pushed to the back when the count of this walk is below 100,
  and dropped when it is not, with no fault and no other change than the node's
  stamp. The count advances by one with every task a walk enqueues.\<close>

theorem C6_queue_cap:
  assumes lv: "level = hires_level_tm tm"
    and v: "RecLoadTiles_visit env tm info pnode level x y = Some (n, d)"
    and cand: "tile n = None" "loading_tm tm \<noteq> TileId level x y"
    and nonempty: "queue_tm tm \<noteq> []"
  shows "RecLoadTiles env tm info pnode level x y =
      Inr (if d < closest_distance info then
             (tm\<lparr>queue_tm := TileTask (TileId level x y) (bbox n) # queue_tm tm\<rparr>,
              info\<lparr>closest_distance := d, queue_size := queue_size info + 1\<rparr>,
              Some (set_generation n (generation_tm tm)))
           else if queue_size info < 100 then
             (tm\<lparr>queue_tm := queue_tm tm @ [TileTask (TileId level x y) (bbox n)]\<rparr>,
              info\<lparr>queue_size := queue_size info + 1\<rparr>,
              Some (set_generation n (generation_tm tm)))
           else (tm, info, Some (set_generation n (generation_tm tm)))) \<and>
    (RecLoadTiles env tm0 info0 p0 level0 x0 y0 = Inr (tm9, info9, p9) \<longrightarrow>
       queue_size info9 - queue_size info0 =
         int (length (queue_tm tm9)) - int (length (queue_tm tm0)))"
proof -
  have "RecLoadTiles_leaf tm info (set_generation n (generation_tm tm)) d level x y =
     (if d < closest_distance info then
        (tm\<lparr>queue_tm := TileTask (TileId level x y) (bbox n) # queue_tm tm\<rparr>,
         info\<lparr>closest_distance := d, queue_size := queue_size info + 1\<rparr>)
      else if queue_size info < 100 then
        (tm\<lparr>queue_tm := queue_tm tm @ [TileTask (TileId level x y) (bbox n)]\<rparr>,
         info\<lparr>queue_size := queue_size info + 1\<rparr>)
      else (tm, info))"
    using cand nonempty by (simp add: leaf_admit_nonempty)
  then have "RecLoadTiles env tm info pnode level x y =
      Inr (if d < closest_distance info then
             (tm\<lparr>queue_tm := TileTask (TileId level x y) (bbox n) # queue_tm tm\<rparr>,
              info\<lparr>closest_distance := d, queue_size := queue_size info + 1\<rparr>,
              Some (set_generation n (generation_tm tm)))
           else if queue_size info < 100 then
             (tm\<lparr>queue_tm := queue_tm tm @ [TileTask (TileId level x y) (bbox n)]\<rparr>,
              info\<lparr>queue_size := queue_size info + 1\<rparr>,
              Some (set_generation n (generation_tm tm)))
           else (tm, info, Some (set_generation n (generation_tm tm))))"
    using v lv by (simp add: RecLoadTiles_at_leaf)
  moreover have "RecLoadTiles env tm0 info0 p0 level0 x0 y0 = Inr (tm9, info9, p9) \<longrightarrow>
       queue_size info9 - queue_size info0 =
         int (length (queue_tm tm9)) - int (length (queue_tm tm0))"
    using walk_queue [of env tm0 info0 p0 level0 x0 y0 tm9 info9 p9] by auto
  ultimately show ?thesis by blast
qed


lemma RecLoadTiles_returns:
  "0 \<le> level \<Longrightarrow> level \<le> hires_level_tm tm \<Longrightarrow> hires_level_tm tm \<le> 30 \<Longrightarrow>
   0 \<le> x \<Longrightarrow> x < 2 ^ nat level \<Longrightarrow> 0 \<le> y \<Longrightarrow> y < 2 ^ nat level \<Longrightarrow>
   \<exists>r. RecLoadTiles env tm info pnode level x y = Inr r"
proof (induction "nat (hires_level_tm tm - level)" arbitrary: tm info pnode level x y)
  case 0
  then have lv: "level = hires_level_tm tm" by simp
  show ?case
  proof (cases "RecLoadTiles_visit env tm info pnode level x y")
    case None
    then show ?thesis by (simp add: RecLoadTiles_prune)
  next
    case (Some nd)
    then show ?thesis using lv by (cases nd) (simp add: RecLoadTiles_at_leaf)
  qed
next
  case (Suc k)
  then have lv: "level \<noteq> hires_level_tm tm" "level + 1 \<le> hires_level_tm tm" by auto
  show ?case
  proof (cases "RecLoadTiles_visit env tm info pnode level x y")
    case None
    then show ?thesis by (simp add: RecLoadTiles_prune)
  next
    case (Some nd)
    then obtain n d where v: "RecLoadTiles_visit env tm info pnode level x y = Some (n, d)"
      by (cases nd) simp
    have p: "(2::int) ^ nat (level + 1) = 2 * 2 ^ nat level"
      using Suc.prems(1) by (simp add: nat_add_distrib)
    have "(2::int) ^ nat level \<le> 2 ^ 30"
      using Suc.prems lv by (intro power_increasing) auto
    then have ok: "int_ok (level + 1) \<and> int_ok (x * 2) \<and> int_ok (x * 2 + 1) \<and> int_ok (y * 2) \<and> int_ok (y * 2 + 1)"
      using Suc.prems lv by (simp add: int_ok_def)
    have b: "0 \<le> level + 1" "0 \<le> x * 2" "x * 2 < 2 ^ nat (level + 1)" "0 \<le> x * 2 + 1"
      "x * 2 + 1 < 2 ^ nat (level + 1)" "0 \<le> y * 2" "y * 2 < 2 ^ nat (level + 1)" "0 \<le> y * 2 + 1"
      "y * 2 + 1 < 2 ^ nat (level + 1)"
      using Suc.prems by (simp_all add: p)
    have step: "\<exists>r. RecLoadTiles env tm' info' q (level + 1) x' y' = Inr r"
      if "hires_level_tm tm' = hires_level_tm tm" "0 \<le> x'" "x' < 2 ^ nat (level + 1)"
         "0 \<le> y'" "y' < 2 ^ nat (level + 1)" for tm' info' q x' y'
    proof (rule Suc.hyps(1))
      show "k = nat (hires_level_tm tm' - (level + 1))" using Suc.hyps(2) that(1) by simp
    qed (use that lv Suc.prems b in simp_all)
    from step [of tm "x * 2" "y * 2" info "child0 n"] b obtain tm1 info1 c0 where
      r0: "RecLoadTiles env tm info (child0 n) (level + 1) (x * 2) (y * 2) = Inr (tm1, info1, c0)"
      by (metis prod_cases3)
    note f1 = walk_frame_fields(3) [OF r0]
    from step [of tm1 "x * 2 + 1" "y * 2" info1 "child1 n"] b f1 obtain tm2 info2 c1 where
      r1: "RecLoadTiles env tm1 info1 (child1 n) (level + 1) (x * 2 + 1) (y * 2) = Inr (tm2, info2, c1)"
      by (metis prod_cases3)
    note f2 = walk_frame_fields(3) [OF r1]
    from step [of tm2 "x * 2" "y * 2 + 1" info2 "child2 n"] b f1 f2 obtain tm3 info3 c2 where
      r2: "RecLoadTiles env tm2 info2 (child2 n) (level + 1) (x * 2) (y * 2 + 1) = Inr (tm3, info3, c2)"
      by (metis prod_cases3)
    note f3 = walk_frame_fields(3) [OF r2]
    from step [of tm3 "x * 2 + 1" "y * 2 + 1" info3 "child3 n"] b f1 f2 f3 obtain tm4 info4 c3 where
      r3: "RecLoadTiles env tm3 info3 (child3 n) (level + 1) (x * 2 + 1) (y * 2 + 1) = Inr (tm4, info4, c3)"
      by (metis prod_cases3)
    show ?thesis
      by (simp add: RecLoadTiles_children [OF v lv(1) ok] r0 r1 r2 r3)
  qed
qed

text \<open>The three cases, at the tile \<open>(13, 1, 3)\<close>, which is at distance 10 of the viewer
  at \<open>(0, 0)\<close>, with one task in the queue: dropped when the count is 100 and the
  closest distance 0, pushed to the back when the count is 99, and pushed to the front
  when the count is 100 and the closest distance 50.\<close>

theorem C6_queue_cap_witness:
  "RecLoadTiles (grid_env 1)
     ((TileManager_new (grid_env 1))\<lparr>queue_tm := [TileTask (TileId 13 0 0) (0, 0, 1)]\<rparr>)
     \<lparr>viewer_pos = (0, 0), closest_distance = 0, queue_size = 100\<rparr> None 13 1 3 =
   Inr ((TileManager_new (grid_env 1))\<lparr>queue_tm := [TileTask (TileId 13 0 0) (0, 0, 1)]\<rparr>,
        \<lparr>viewer_pos = (0, 0), closest_distance = 0, queue_size = 100\<rparr>,
        Some (QuadNode (1, 3, 1) None 0 None None None None)) \<and>
   RecLoadTiles (grid_env 1)
     ((TileManager_new (grid_env 1))\<lparr>queue_tm := [TileTask (TileId 13 0 0) (0, 0, 1)]\<rparr>)
     \<lparr>viewer_pos = (0, 0), closest_distance = 0, queue_size = 99\<rparr> None 13 1 3 =
   Inr ((TileManager_new (grid_env 1))
          \<lparr>queue_tm := [TileTask (TileId 13 0 0) (0, 0, 1), TileTask (TileId 13 1 3) (1, 3, 1)]\<rparr>,
        \<lparr>viewer_pos = (0, 0), closest_distance = 0, queue_size = 100\<rparr>,
        Some (QuadNode (1, 3, 1) None 0 None None None None)) \<and>
   RecLoadTiles (grid_env 1)
     ((TileManager_new (grid_env 1))\<lparr>queue_tm := [TileTask (TileId 13 0 0) (0, 0, 1)]\<rparr>)
     \<lparr>viewer_pos = (0, 0), closest_distance = 50, queue_size = 100\<rparr> None 13 1 3 =
   Inr ((TileManager_new (grid_env 1))
          \<lparr>queue_tm := [TileTask (TileId 13 1 3) (1, 3, 1), TileTask (TileId 13 0 0) (0, 0, 1)]\<rparr>,
        \<lparr>viewer_pos = (0, 0), closest_distance = 10, queue_size = 101\<rparr>,
        Some (QuadNode (1, 3, 1) None 0 None None None None))"
proof -
  let ?E = "grid_env 1"
  let ?T = "(TileManager_new ?E)\<lparr>queue_tm := [TileTask (TileId 13 0 0) (0, 0, 1)]\<rparr>"
  let ?n = "QuadNode (1, 3, 1) None 0 None None None None :: (int \<times> int \<times> int, nat) QuadNode"
  have lv: "(13::int) = hires_level_tm ?T" by (simp add: TileManager_new_def)
  have v: "RecLoadTiles_visit ?E ?T \<lparr>viewer_pos = (0, 0), closest_distance = c, queue_size = k\<rparr>
      None 13 1 3 = Some (?n, 10)" for c k
    by (simp add: eval_defs)
  have t: "tile ?n = None" by simp
  have l: "loading_tm ?T \<noteq> TileId 13 1 3" by (simp add: TileManager_new_def)
  have q: "queue_tm ?T \<noteq> []" by simp
  note r = C6_queue_cap [OF lv v t l q, THEN conjunct1]
  have g: "generation_tm ?T = 0" by (simp add: TileManager_new_def)
  show ?thesis
    by (simp add: r [of 0 100] r [of 0 99] r [of 50 100] g)
qed


section \<open>The walk and the placement address the same nodes\<close>

lemma length_place_path [simp]: "length (place_path n x y) = n"
  by (induction n) simp_all

lemma place_path_lt4: "list_all (\<lambda>i. i < 4) (place_path n x y)"
  by (induction n) (simp_all add: nchild_lt4)

lemma path_x_bounds: "list_all (\<lambda>i. i < 4) path \<Longrightarrow> 0 \<le> path_x path \<and> path_x path < 2 ^ length path"
proof (induction path)
  case Nil
  then show ?case by simp
next
  case (Cons i path)
  have "int (i mod 2) \<le> 1" by simp
  then have "int (i mod 2) * 2 ^ length path \<le> 1 * 2 ^ length path"
    by (intro mult_right_mono) simp_all
  then have "int (i mod 2) * 2 ^ length path \<le> 2 ^ length path" by simp
  moreover have "0 \<le> int (i mod 2) * (2::int) ^ length path" by simp
  moreover have "0 \<le> path_x path \<and> path_x path < 2 ^ length path"
    using Cons by simp
  ultimately show ?case
    unfolding path_x.simps length_Cons power_Suc by linarith
qed

lemma path_y_bounds: "list_all (\<lambda>i. i < 4) path \<Longrightarrow> 0 \<le> path_y path \<and> path_y path < 2 ^ length path"
proof (induction path)
  case Nil
  then show ?case by simp
next
  case (Cons i path)
  then have "i < 4" by simp
  then have "int (i div 2) \<le> 1" by simp
  then have "int (i div 2) * 2 ^ length path \<le> 1 * 2 ^ length path"
    by (intro mult_right_mono) simp_all
  then have "int (i div 2) * 2 ^ length path \<le> 2 ^ length path" by simp
  moreover have "0 \<le> int (i div 2) * (2::int) ^ length path" by simp
  moreover have "0 \<le> path_y path \<and> path_y path < 2 ^ length path"
    using Cons by simp
  ultimately show ?case
    unfolding path_y.simps length_Cons power_Suc by linarith
qed

lemma quadrant_bits:
  "i < 4 \<Longrightarrow> quadrant (TileId l x y) i = TileId (l + 1) (x * 2 + int (i mod 2)) (y * 2 + int (i div 2))"
proof -
  assume "i < 4"
  then have "i = 0 \<or> i = 1 \<or> i = 2 \<or> i = 3" by linarith
  then show ?thesis by (elim disjE) simp_all
qed

lemma walk_addr_path:
  "list_all (\<lambda>i. i < 4) path \<Longrightarrow>
   walk_addr (TileId l x y) path =
     TileId (l + int (length path)) (x * 2 ^ length path + path_x path)
       (y * 2 ^ length path + path_y path)"
proof (induction path arbitrary: l x y)
  case Nil
  then show ?case by simp
next
  case (Cons i path)
  then have i: "i < 4" and r: "list_all (\<lambda>i. i < 4) path" by simp_all
  show ?case
    by (simp add: quadrant_bits [OF i] Cons.IH [OF r] algebra_simps del: quadrant.simps)
qed

lemma bit_top:
  assumes "0 \<le> r" "r < 2 ^ n"
  shows "bit (a * 2 ^ n + r :: int) n = odd a"
proof -
  have "(a * 2 ^ n + r) div 2 ^ n = a"
    using assms by (simp add: div_pos_pos_trivial)
  then show ?thesis by (simp add: bit_iff_odd)
qed

lemma nchild_path:
  assumes i: "i < 4" and rx: "0 \<le> rx" "rx < 2 ^ n" and ry: "0 \<le> ry" "ry < 2 ^ n"
  shows "nchild (int (Suc n)) ((x * 2 + int (i mod 2)) * 2 ^ n + rx)
           ((y * 2 + int (i div 2)) * 2 ^ n + ry) = i"
proof -
  from i have "i = 0 \<or> i = 1 \<or> i = 2 \<or> i = 3" by linarith
  then show ?thesis
    by (elim disjE) (simp_all add: nchild_bits bit_top [OF rx] bit_top [OF ry])
qed

lemma place_path_of_path:
  "list_all (\<lambda>i. i < 4) path \<Longrightarrow>
   place_path (length path) (x * 2 ^ length path + path_x path) (y * 2 ^ length path + path_y path)
     = path"
proof (induction path arbitrary: x y)
  case Nil
  then show ?case by simp
next
  case (Cons i path)
  then have i: "i < 4" and r: "list_all (\<lambda>i. i < 4) path" by simp_all
  let ?n = "length path"
  have ex: "x * 2 ^ length (i # path) + path_x (i # path) = (x * 2 + int (i mod 2)) * 2 ^ ?n + path_x path"
    and ey: "y * 2 ^ length (i # path) + path_y (i # path) = (y * 2 + int (i div 2)) * 2 ^ ?n + path_y path"
    by (simp_all add: algebra_simps)
  have "nchild (int (Suc ?n)) ((x * 2 + int (i mod 2)) * 2 ^ ?n + path_x path)
           ((y * 2 + int (i div 2)) * 2 ^ ?n + path_y path) = i"
    using nchild_path [OF i] path_x_bounds [OF r] path_y_bounds [OF r] by blast
  moreover have "place_path ?n ((x * 2 + int (i mod 2)) * 2 ^ ?n + path_x path)
           ((y * 2 + int (i div 2)) * 2 ^ ?n + path_y path) = path"
    by (rule Cons.IH [OF r])
  ultimately show ?case
    unfolding ex ey by simp
qed

lemma leaf_new_task:
  assumes "RecLoadTiles_leaf tm info node d level x y = (tm', info')"
    and "t \<in> set (queue_tm tm')"
  shows "t \<in> set (queue_tm tm) \<or>
     (t = TileTask (TileId level x y) (bbox node) \<and> tile node = None \<and>
      loading_tm tm \<noteq> TileId level x y)"
  using assms by (auto simp: RecLoadTiles_leaf_def split: if_splits)

lemma task_at_child:
  assumes "task_at tmc c (quadrant a i) k t" and "i < 4" and "childs pn i = c"
    and "generation_tm tmc = generation_tm tm"
  shows "task_at tm (Some pn) a (Suc k) t"
proof -
  from assms(1) obtain path n where p: "length path = k" "list_all (\<lambda>i. i < 4) path"
    "task_id t = walk_addr (quadrant a i) path" "node_at c path = Some n" "task_bbox t = bbox n"
    "tile n = None" "generation n = generation_tm tmc"
    unfolding task_at_def by blast
  have "length (i # path) = Suc k" "list_all (\<lambda>i. i < 4) (i # path)"
    "task_id t = walk_addr a (i # path)" "node_at (Some pn) (i # path) = Some n"
    using p assms(2,3) by simp_all
  with p assms(4) show ?thesis
    unfolding task_at_def by metis
qed

lemma walk_tasks_nodes:
  assumes "RecLoadTiles env tm info pnode level x y = Inr (tm', info', p')"
  shows "level \<le> hires_level_tm tm \<longrightarrow>
    (\<forall>t \<in> set (queue_tm tm'). t \<in> set (queue_tm tm) \<or>
       task_at tm p' (TileId level x y) (nat (hires_level_tm tm - level)) t)"
  using assms
proof (induction rule: RecLoadTiles_walk_induct)
  case (prune tm info pnode level x y)
  then show ?case by simp
next
  case (leaf tm info pnode level x y n d tm' info')
  show ?case
  proof (intro impI ballI)
    fix t assume "t \<in> set (queue_tm tm')"
    from leaf_new_task [OF leaf(3) this]
    show "t \<in> set (queue_tm tm) \<or>
       task_at tm (Some (set_generation n (generation_tm tm))) (TileId level x y)
         (nat (hires_level_tm tm - level)) t"
    proof
      assume "t \<in> set (queue_tm tm)"
      then show ?thesis by simp
    next
      assume a: "t = TileTask (TileId level x y) (bbox (set_generation n (generation_tm tm))) \<and>
        tile (set_generation n (generation_tm tm)) = None \<and> loading_tm tm \<noteq> TileId level x y"
      have "task_at tm (Some (set_generation n (generation_tm tm))) (TileId level x y) 0 t"
        unfolding task_at_def
        by (rule exI [of _ "[]"], rule exI [of _ "set_generation n (generation_tm tm)"])
           (use a in simp)
      with leaf(2) show ?thesis by simp
    qed
  qed
next
  case (children tm info pnode level x y n d tm1 info1 c0 tm2 info2 c1 tm3 info3 c2 tm4 info4 c3)
  note f1 = walk_frame_fields [OF children.hyps(4)]
  note f2 = walk_frame_fields [OF children.hyps(5)]
  note f3 = walk_frame_fields [OF children.hyps(6)]
  let ?pn = "QuadNode (bbox n) (tile n) (generation_tm tm) c0 c1 c2 c3"
  let ?a = "TileId level x y"
  show ?case
  proof (intro impI ballI)
    fix t
    assume le: "level \<le> hires_level_tm tm" and t: "t \<in> set (queue_tm tm4)"
    with children.hyps(2) have lt: "level + 1 \<le> hires_level_tm tm" by simp
    then obtain k where k: "nat (hires_level_tm tm - level) = Suc k"
      "nat (hires_level_tm tm - (level + 1)) = k"
      by (cases "nat (hires_level_tm tm - level)") auto
    have q: "quadrant ?a 0 = TileId (level + 1) (x * 2) (y * 2)"
      "quadrant ?a 1 = TileId (level + 1) (x * 2 + 1) (y * 2)"
      "quadrant ?a 2 = TileId (level + 1) (x * 2) (y * 2 + 1)"
      "quadrant ?a 3 = TileId (level + 1) (x * 2 + 1) (y * 2 + 1)"
      by simp_all
    have ih0: "\<forall>t \<in> set (queue_tm tm1). t \<in> set (queue_tm tm) \<or> task_at tm c0 (quadrant ?a 0) k t"
      using children.IH(1) lt k by (simp add: q)
    have ih1: "\<forall>t \<in> set (queue_tm tm2). t \<in> set (queue_tm tm1) \<or> task_at tm1 c1 (quadrant ?a 1) k t"
      using children.IH(2) lt k f1 by (simp add: q)
    have ih2: "\<forall>t \<in> set (queue_tm tm3). t \<in> set (queue_tm tm2) \<or> task_at tm2 c2 (quadrant ?a 2) k t"
      using children.IH(3) lt k f1 f2 by (simp add: q)
    have ih3: "\<forall>t \<in> set (queue_tm tm4). t \<in> set (queue_tm tm3) \<or> task_at tm3 c3 (quadrant ?a 3) k t"
      using children.IH(4) lt k f1 f2 f3 by (simp add: q)
    have l0: "task_at tm c0 (quadrant ?a 0) k t \<Longrightarrow> task_at tm (Some ?pn) ?a (Suc k) t"
      by (rule task_at_child [where i = 0 and tmc = tm]) simp_all
    have l1: "task_at tm1 c1 (quadrant ?a 1) k t \<Longrightarrow> task_at tm (Some ?pn) ?a (Suc k) t"
      by (rule task_at_child [where i = 1 and tmc = tm1]) (simp_all add: f1)
    have l2: "task_at tm2 c2 (quadrant ?a 2) k t \<Longrightarrow> task_at tm (Some ?pn) ?a (Suc k) t"
      by (rule task_at_child [where i = 2 and tmc = tm2]) (simp_all add: f1 f2)
    have l3: "task_at tm3 c3 (quadrant ?a 3) k t \<Longrightarrow> task_at tm (Some ?pn) ?a (Suc k) t"
      by (rule task_at_child [where i = 3 and tmc = tm3]) (simp_all add: f1 f2 f3)
    from t ih0 ih1 ih2 ih3 l0 l1 l2 l3
    show "t \<in> set (queue_tm tm) \<or> task_at tm (Some ?pn) ?a (nat (hires_level_tm tm - level)) t"
      unfolding k by blast
  qed
qed

lemma task_at_root:
  assumes "task_at tm p (TileId 0 0 0) k t"
  shows "\<exists>x y n. task_id t = TileId (int k) x y \<and> 0 \<le> x \<and> x < 2 ^ k \<and> 0 \<le> y \<and> y < 2 ^ k \<and>
     node_at p (place_path k x y) = Some n \<and> bbox n = task_bbox t \<and> tile n = None \<and>
     generation n = generation_tm tm"
proof -
  from assms obtain path n where p: "length path = k" "list_all (\<lambda>i. i < 4) path"
    "task_id t = walk_addr (TileId 0 0 0) path" "node_at p path = Some n" "task_bbox t = bbox n"
    "tile n = None" "generation n = generation_tm tm"
    unfolding task_at_def by blast
  have "task_id t = TileId (int k) (path_x path) (path_y path)"
    using walk_addr_path [OF p(2), of 0 0 0] p(1,3) by simp
  moreover have "place_path k (path_x path) (path_y path) = path"
    using place_path_of_path [OF p(2), of 0 0] p(1) by simp
  moreover note path_x_bounds [OF p(2)] path_y_bounds [OF p(2)]
  ultimately show ?thesis using p by auto
qed

lemma LoadLocality_tasks:
  assumes r: "LoadLocality env tm viewer flags = Inr (tm', signal)"
    and hl: "0 \<le> hires_level_tm tm"
    and t: "t \<in> set (queue_tm tm')" and new: "flags AND SYNC env = 0 \<or> t \<notin> set (queue_tm tm)"
  shows "task_at tm' (Some (root_tm tm')) (TileId 0 0 0) (nat (hires_level_tm tm)) t \<and>
    hires_level_tm tm' = hires_level_tm tm"
proof -
  let ?tm0 = "if flags AND SYNC env = 0 then tm\<lparr>queue_tm := []\<rparr> else tm"
  from r obtain tm1 info1 rt where
    w: "RecLoadTiles env ?tm0 (new_RecLoadTilesInfo env viewer flags) (Some (root_tm tm)) 0 0 0 =
          Inr (tm1, info1, rt)"
    and t': "tm' = (case rt of None \<Rightarrow> tm1 | Some r \<Rightarrow> tm1\<lparr>root_tm := r\<rparr>)"
    by (auto simp: LoadLocality_unfold split: sum.splits)
  from walk_Some [OF w] obtain r where rt: "rt = Some r" by auto
  have tm': "tm' = tm1\<lparr>root_tm := r\<rparr>" using t' rt by simp
  note f = walk_frame_fields [OF w]
  have "t \<in> set (queue_tm tm1)" using t tm' by simp
  moreover have "t \<notin> set (queue_tm ?tm0)" using new by auto
  ultimately have "task_at ?tm0 rt (TileId 0 0 0) (nat (hires_level_tm ?tm0 - 0)) t"
    using walk_tasks_nodes [OF w] hl by auto
  moreover have "generation_tm ?tm0 = generation_tm tm" "hires_level_tm ?tm0 = hires_level_tm tm"
    by simp_all
  ultimately have "task_at tm' (Some (root_tm tm')) (TileId 0 0 0) (nat (hires_level_tm tm)) t"
    using f(1) by (simp add: task_at_def tm' rt)
  moreover have "hires_level_tm tm' = hires_level_tm tm" using f(3) tm' by simp
  ultimately show ?thesis by simp
qed

text \<open>Claim C8. The descent of \<^verbatim>\<open>RecPlaceTile\<close> for \<open>(k, x, y)\<close> with \<open>0 \<le> x, y < 2 ^ k\<close>
  takes a path that, retraced from the root by the quadrants of the walk, gives
  \<open>(k, x, y)\<close> back; and every path of child indices is the descent of the tile it leads
  to. The two address the same node: every task that \<^verbatim>\<open>LoadLocality\<close> enqueues (for a
  hires level from 0 to 31) has an id \<open>(level, x, y)\<close> within these bounds, and the node
  the placement descent reaches for that id is the node the walk visited under it: it
  exists, carries the current generation and the task's bounding box, and
  \<^verbatim>\<open>RecPlaceTile\<close> attaches the tile to it.\<close>

theorem C8_addressing:
  "(0 \<le> x \<and> x < 2 ^ k \<and> 0 \<le> y \<and> y < 2 ^ k \<longrightarrow>
      walk_addr (TileId 0 0 0) (place_path k x y) = TileId (int k) x y) \<and>
   (list_all (\<lambda>i. i < 4) path \<longrightarrow>
      walk_addr (TileId 0 0 0) path = TileId (int (length path)) (path_x path) (path_y path) \<and>
      place_path (length path) (path_x path) (path_y path) = path) \<and>
   (LoadLocality env tm viewer flags = Inr (tm', signal) \<and>
    0 \<le> hires_level_tm tm \<and> hires_level_tm tm \<le> 31 \<and>
    t \<in> set (queue_tm tm') \<and> (flags AND SYNC env = 0 \<or> t \<notin> set (queue_tm tm)) \<longrightarrow>
      (\<exists>tx ty n.
         task_id t = TileId (hires_level_tm tm) tx ty \<and>
         0 \<le> tx \<and> tx < 2 ^ nat (hires_level_tm tm) \<and>
         0 \<le> ty \<and> ty < 2 ^ nat (hires_level_tm tm) \<and>
         node_at (Some (root_tm tm')) (place_path (nat (hires_level_tm tm)) tx ty) = Some n \<and>
         bbox n = task_bbox t \<and> tile n = None \<and> generation n = generation_tm tm' \<and>
         (\<forall>tp. RecPlaceTile (Some (root_tm tm')) tp (hires_level_tm tm) tx ty =
            Inr (modify_at (\<lambda>n. set_tile n (Some tp)) (Some (root_tm tm'))
                   (place_path (nat (hires_level_tm tm)) tx ty), False))))"
proof (intro conjI impI)
  assume "0 \<le> x \<and> x < 2 ^ k \<and> 0 \<le> y \<and> y < 2 ^ k"
  then show "walk_addr (TileId 0 0 0) (place_path k x y) = TileId (int k) x y"
    by (simp add: walk_addr_place_path take_bit_int_eq_self)
next
  assume p: "list_all (\<lambda>i. i < 4) path"
  show "walk_addr (TileId 0 0 0) path = TileId (int (length path)) (path_x path) (path_y path)"
    using walk_addr_path [OF p, of 0 0 0] by simp
  show "place_path (length path) (path_x path) (path_y path) = path"
    using place_path_of_path [OF p, of 0 0] by simp
next
  assume a: "LoadLocality env tm viewer flags = Inr (tm', signal) \<and>
    0 \<le> hires_level_tm tm \<and> hires_level_tm tm \<le> 31 \<and>
    t \<in> set (queue_tm tm') \<and> (flags AND SYNC env = 0 \<or> t \<notin> set (queue_tm tm))"
  let ?k = "nat (hires_level_tm tm)"
  from a LoadLocality_tasks [of env tm viewer flags tm' signal t]
  have "task_at tm' (Some (root_tm tm')) (TileId 0 0 0) ?k t" by blast
  from task_at_root [OF this] obtain tx ty n where
    n: "task_id t = TileId (int ?k) tx ty" "0 \<le> tx" "tx < 2 ^ ?k" "0 \<le> ty" "ty < 2 ^ ?k"
     "node_at (Some (root_tm tm')) (place_path ?k tx ty) = Some n" "bbox n = task_bbox t"
     "tile n = None" "generation n = generation_tm tm'"
    by blast
  have k: "int ?k = hires_level_tm tm" using a by simp
  have "RecPlaceTile (Some (root_tm tm')) tp (hires_level_tm tm) tx ty =
            Inr (modify_at (\<lambda>n. set_tile n (Some tp)) (Some (root_tm tm'))
                   (place_path ?k tx ty), False)" for tp
    using a n(6,8) RecPlaceTile_char [of "hires_level_tm tm" "Some (root_tm tm')" tp tx ty]
    by (simp del: RecPlaceTile.simps)
  with n show "\<exists>tx ty n.
         task_id t = TileId (hires_level_tm tm) tx ty \<and>
         0 \<le> tx \<and> tx < 2 ^ nat (hires_level_tm tm) \<and>
         0 \<le> ty \<and> ty < 2 ^ nat (hires_level_tm tm) \<and>
         node_at (Some (root_tm tm')) (place_path (nat (hires_level_tm tm)) tx ty) = Some n \<and>
         bbox n = task_bbox t \<and> tile n = None \<and> generation n = generation_tm tm' \<and>
         (\<forall>tp. RecPlaceTile (Some (root_tm tm')) tp (hires_level_tm tm) tx ty =
            Inr (modify_at (\<lambda>n. set_tile n (Some tp)) (Some (root_tm tm'))
                   (place_path (nat (hires_level_tm tm)) tx ty), False))"
    unfolding k by blast
qed

text \<open>The tile \<open>(3, 5, 3)\<close> and its path, and the one task of a \<^verbatim>\<open>LoadLocality\<close> on a
  fresh manager with the viewer in the corner tile and only that tile in range.\<close>

theorem C8_addressing_witness:
  "walk_addr (TileId 0 0 0) (place_path 3 5 3) = TileId 3 5 3 \<and>
   place_path 3 5 3 = [1, 2, 3] \<and>
   walk_addr (TileId 0 0 0) [1, 2, 3] = TileId 3 5 3 \<and>
   (case LoadLocality (grid_env 20000) (TileManager_new (grid_env 20000)) (0, 0) 0 of
      Inl f \<Rightarrow> False
    | Inr (tm', signal) \<Rightarrow>
        queue_tm tm' = [TileTask (TileId 13 0 0) (0, 0, 1)] \<and>
        map_option bbox (node_at (Some (root_tm tm')) (place_path 13 0 0)) = Some (0, 0, 1) \<and>
        (\<exists>tree. RecPlaceTile (Some (root_tm tm')) 7 13 0 0 = Inr (tree, False) \<and>
           map_option tile (node_at tree (place_path 13 0 0)) = Some (Some 7)))"
proof -
  let ?E = "grid_env 20000"
  let ?T = "TileManager_new ?E"
  let ?t = "TileTask (TileId 13 0 0) (0, 0, 1) :: (int \<times> int \<times> int) TileTask"
  have p: "place_path 3 5 3 = [1, 2, 3]"
    by (simp add: numeral_3_eq_3 nchild_def)
  have b: "(0::int) \<le> 5 \<and> (5::int) < 2 ^ 3 \<and> (0::int) \<le> 3 \<and> (3::int) < 2 ^ 3"
    and l: "list_all (\<lambda>i. i < 4) [1, 2, 3 :: nat]"
    by simp_all
  have "\<exists>tm' signal. LoadLocality ?E ?T (0, 0) 0 = Inr (tm', signal) \<and> queue_tm tm' = [?t]"
    by (simp add: walk_eval) blast
  then obtain tm' signal where r: "LoadLocality ?E ?T (0, 0) 0 = Inr (tm', signal)"
    and q: "queue_tm tm' = [?t]"
    by blast
  have h: "hires_level_tm ?T = 13" by (simp add: TileManager_new_def)
  have s: "(0::int) AND SYNC ?E = 0" by (simp add: grid_env_def)
  note th = C8_addressing [where x = 5 and y = 3 and k = 3 and path = "[1, 2, 3]" and env = ?E
      and tm = ?T and viewer = "(0, 0)" and flags = 0 and tm' = tm' and signal = signal and t = ?t]
  from th b have c1: "walk_addr (TileId 0 0 0) (place_path 3 5 3) = TileId 3 5 3"
    by simp
  from th l have c3: "walk_addr (TileId 0 0 0) [1, 2, 3] = TileId 3 5 3"
    by simp
  from th r q s h obtain tx ty n where
    n: "task_id ?t = TileId 13 tx ty"
      "node_at (Some (root_tm tm')) (place_path 13 tx ty) = Some n" "bbox n = task_bbox ?t"
      "\<forall>tp. RecPlaceTile (Some (root_tm tm')) tp 13 tx ty =
         Inr (modify_at (\<lambda>n. set_tile n (Some tp)) (Some (root_tm tm')) (place_path 13 tx ty), False)"
    by auto
  from n(1) have xy: "tx = 0" "ty = 0" by simp_all
  have c4: "map_option bbox (node_at (Some (root_tm tm')) (place_path 13 0 0)) = Some (0, 0, 1)"
    using n(2,3) unfolding xy by simp
  have "map_option tile (node_at (modify_at (\<lambda>n. set_tile n (Some 7)) (Some (root_tm tm'))
      (place_path 13 0 0)) (place_path 13 0 0)) = Some (Some 7)"
    using n(2) unfolding xy by (cases n) (simp add: node_at_modify_at)
  with n(4) have c5: "\<exists>tree. RecPlaceTile (Some (root_tm tm')) 7 13 0 0 = Inr (tree, False) \<and>
           map_option tile (node_at tree (place_path 13 0 0)) = Some (Some 7)"
    unfolding xy by blast
  have c: "(case LoadLocality ?E ?T (0, 0) 0 of
      Inl f \<Rightarrow> False
    | Inr (tm', signal) \<Rightarrow>
        queue_tm tm' = [?t] \<and>
        map_option bbox (node_at (Some (root_tm tm')) (place_path 13 0 0)) = Some (0, 0, 1) \<and>
        (\<exists>tree. RecPlaceTile (Some (root_tm tm')) 7 13 0 0 = Inr (tree, False) \<and>
           map_option tile (node_at tree (place_path 13 0 0)) = Some (Some 7)))"
    using q c4 c5 by (simp only: r sum.case prod.case simp_thms)
  show ?thesis using c1 p c3 c by blast
qed

section \<open>The set of tiles a walk enqueues\<close>

lemma bboxes_ok_at_simps [simp]:
  "bboxes_ok_at env a None"
  "bboxes_ok_at env a (Some n) = bboxes_ok env a n"
  by (simp_all add: bboxes_ok_at_def)

lemma bboxes_ok_childs:
  "bboxes_ok env a n \<Longrightarrow>
   bbox n = ForGeoTile env (tid_level a) (tid_x a) (tid_y a) \<and>
   bboxes_ok_at env (quadrant a 0) (child0 n) \<and> bboxes_ok_at env (quadrant a 1) (child1 n) \<and>
   bboxes_ok_at env (quadrant a 2) (child2 n) \<and> bboxes_ok_at env (quadrant a 3) (child3 n)"
  by (cases n) (simp add: bboxes_ok_at_def cong: option.case_cong)

lemma bboxes_ok_node:
  "bboxes_ok env a (QuadNode b t s c0 c1 c2 c3) =
   (b = ForGeoTile env (tid_level a) (tid_x a) (tid_y a) \<and>
   bboxes_ok_at env (quadrant a 0) c0 \<and> bboxes_ok_at env (quadrant a 1) c1 \<and>
   bboxes_ok_at env (quadrant a 2) c2 \<and> bboxes_ok_at env (quadrant a 3) c3)"
  by (simp add: bboxes_ok_at_def cong: option.case_cong)

lemma bboxes_ok_set_generation [simp]:
  "bboxes_ok env a (set_generation n g) = bboxes_ok env a n"
  by (cases n) simp

lemma in_view_head: "in_view env tm pos a path \<Longrightarrow> in_range env tm pos a"
  by (cases path) simp_all

text \<open>What the range check finds, on a tree whose boxes are those of the addresses.\<close>

lemma visit_boxes:
  assumes "bboxes_ok_at env (TileId level x y) pnode"
  shows "(RecLoadTiles_visit env tm info pnode level x y = None \<longrightarrow>
           \<not> in_range env tm (viewer_pos info) (TileId level x y)) \<and>
         (\<forall>n d. RecLoadTiles_visit env tm info pnode level x y = Some (n, d) \<longrightarrow>
           in_range env tm (viewer_pos info) (TileId level x y) \<and>
           bboxes_ok env (TileId level x y) n \<and>
           (pnode = None \<longrightarrow> tile n = None \<and> child0 n = None \<and> child1 n = None \<and>
              child2 n = None \<and> child3 n = None) \<and>
           (\<forall>m. pnode = Some m \<longrightarrow> n = m))"
proof (cases pnode)
  case None
  then show ?thesis
    by (auto simp: RecLoadTiles_visit_def Let_def in_range_def new_QuadNode_def)
next
  case (Some m)
  with assms have "bbox m = ForGeoTile env level x y"
    by (cases m) simp
  with Some assms show ?thesis
    by (auto simp: RecLoadTiles_visit_def Let_def in_range_def)
qed

declare bboxes_ok.simps [simp del]

lemma in_view_frame:
  "hires_range_tm tm1 = hires_range_tm tm \<Longrightarrow> in_view env tm1 pos a path = in_view env tm pos a path"
  by (induction path arbitrary: a) (simp_all add: in_range_def)

lemma cand_frame':
  "same_but_queue tm tm1 \<Longrightarrow> cand env tm1 pos a p path = cand env tm pos a p path"
  using in_view_frame [of tm1 tm env pos a path]
  by (simp add: cand_def same_but_queue_def)

text \<open>A path below a visited node is a candidate exactly when its tail is one below
  the child.\<close>

lemma cand_child:
  assumes v: "RecLoadTiles_visit env tm info pnode level x y = Some (n, d)"
    and b: "bboxes_ok_at env (TileId level x y) pnode"
    and i: "i < 4"
  shows "cand env tm (viewer_pos info) (TileId level x y) pnode (i # path) =
         cand env tm (viewer_pos info) (quadrant (TileId level x y) i) (childs n i) path"
proof -
  note vb = visit_boxes [OF b, where tm = tm and info = info, THEN conjunct2, rule_format, OF v]
  have r: "in_range env tm (viewer_pos info) (TileId level x y)" using vb by simp
  have "no_tile pnode (i # path) = no_tile (childs n i) path"
  proof (cases pnode)
    case None
    with vb have "childs n i = None" by (cases n) simp
    with None show ?thesis by (simp add: no_tile_def)
  next
    case (Some m)
    with vb have "n = m" by simp
    with Some show ?thesis by (simp add: no_tile_def)
  qed
  with r i show ?thesis by (simp add: cand_def)
qed

lemma enq_pruned:
  "\<not> in_range env tm pos a \<Longrightarrow> enq env tm pos a p k = {}"
  by (auto simp: enq_def cand_def dest: in_view_head)

lemma enq_leaf:
  "enq env tm pos a p 0 =
     (if in_range env tm pos a \<and> no_tile p [] \<and> a \<noteq> loading_tm tm then {a} else {})"
  by (auto simp: enq_def cand_def)

lemma enq_children:
  assumes v: "RecLoadTiles_visit env tm info pnode level x y = Some (n, d)"
    and b: "bboxes_ok_at env (TileId level x y) pnode"
  shows "enq env tm (viewer_pos info) (TileId level x y) pnode (Suc k) =
     enq env tm (viewer_pos info) (TileId (level + 1) (x * 2) (y * 2)) (child0 n) k \<union>
     enq env tm (viewer_pos info) (TileId (level + 1) (x * 2 + 1) (y * 2)) (child1 n) k \<union>
     enq env tm (viewer_pos info) (TileId (level + 1) (x * 2) (y * 2 + 1)) (child2 n) k \<union>
     enq env tm (viewer_pos info) (TileId (level + 1) (x * 2 + 1) (y * 2 + 1)) (child3 n) k"
    (is "?L = ?R")
proof -
  let ?a = "TileId level x y"
  let ?pos = "viewer_pos info"
  have c: "childs n 0 = child0 n" "childs n 1 = child1 n" "childs n 2 = child2 n"
    "childs n 3 = child3 n"
    by (cases n; simp)+
  have q: "quadrant ?a 0 = TileId (level + 1) (x * 2) (y * 2)"
      "quadrant ?a 1 = TileId (level + 1) (x * 2 + 1) (y * 2)"
      "quadrant ?a 2 = TileId (level + 1) (x * 2) (y * 2 + 1)"
      "quadrant ?a 3 = TileId (level + 1) (x * 2 + 1) (y * 2 + 1)"
    by simp_all
  have e: "enq env tm ?pos (quadrant ?a i) (childs n i) k \<subseteq> ?L" if "i < 4" for i
  proof
    fix u assume "u \<in> enq env tm ?pos (quadrant ?a i) (childs n i) k"
    then obtain path where p: "u = walk_addr (quadrant ?a i) path" "length path = k"
      "cand env tm ?pos (quadrant ?a i) (childs n i) path"
      unfolding enq_def by blast
    then have "u = walk_addr ?a (i # path)" "length (i # path) = Suc k"
      "cand env tm ?pos ?a pnode (i # path)"
      using cand_child [OF v b that] by simp_all
    then show "u \<in> ?L" unfolding enq_def by blast
  qed
  have "?L \<subseteq> ?R"
  proof
    fix u assume "u \<in> ?L"
    then obtain path where p: "u = walk_addr ?a path" "length path = Suc k"
      "cand env tm ?pos ?a pnode path"
      unfolding enq_def by blast
    then obtain i rest where ir: "path = i # rest" by (cases path) simp_all
    with p have i: "i < 4" by (simp add: cand_def)
    from p ir cand_child [OF v b i] have
      "u \<in> enq env tm ?pos (quadrant ?a i) (childs n i) k"
      unfolding enq_def by auto
    moreover from i have "i = 0 \<or> i = 1 \<or> i = 2 \<or> i = 3" by linarith
    ultimately show "u \<in> ?R"
      using q c by (elim disjE) simp_all
  qed
  moreover have "?R \<subseteq> ?L"
    using e [of 0] e [of 1] e [of 2] e [of 3] unfolding q c by auto
  ultimately show ?thesis by blast
qed

lemma enq_frame:
  "same_but_queue tm tm1 \<Longrightarrow> enq env tm1 pos a p k = enq env tm pos a p k"
  by (simp add: enq_def cand_frame')

lemma walk_same:
  assumes "RecLoadTiles env tm info pnode level x y = Inr (tm', info', p')"
  shows "same_but_queue tm tm'"
  using walk_frame [OF assms] by simp

lemma same_but_queue_trans:
  "same_but_queue a b \<Longrightarrow> same_but_queue b c \<Longrightarrow> same_but_queue a c"
  by (simp add: same_but_queue_def)

text \<open>Adding composes, and a leaf visit adds the leaf when it is a candidate and is
  not dropped.\<close>

lemma adds_refl: "adds q c q c {}"
  unfolding adds_def by (rule exI [of _ "[]"], rule exI [of _ "[]"]) simp

lemma adds_trans:
  assumes "adds q c q1 c1 E1" "adds q1 c1 q2 c2 E2"
  shows "adds q c q2 c2 (E1 \<union> E2)"
proof -
  from assms(1) obtain f1 b1 where 1: "q1 = f1 @ q @ b1" "task_id ` set (f1 @ b1) \<subseteq> E1"
    "c1 < 100 \<longrightarrow> E1 \<subseteq> task_id ` set (f1 @ b1)" "c1 = c + int (length (f1 @ b1))"
    unfolding adds_def by blast
  from assms(2) obtain f2 b2 where 2: "q2 = f2 @ q1 @ b2" "task_id ` set (f2 @ b2) \<subseteq> E2"
    "c2 < 100 \<longrightarrow> E2 \<subseteq> task_id ` set (f2 @ b2)" "c2 = c1 + int (length (f2 @ b2))"
    unfolding adds_def by blast
  have s: "set ((f2 @ f1) @ (b1 @ b2)) = set (f1 @ b1) \<union> set (f2 @ b2)" by auto
  have "q2 = (f2 @ f1) @ q @ (b1 @ b2)" using 1(1) 2(1) by simp
  moreover have "task_id ` set ((f2 @ f1) @ (b1 @ b2)) \<subseteq> E1 \<union> E2"
    unfolding s using 1(2) 2(2) by blast
  moreover have "c2 < 100 \<longrightarrow> E1 \<union> E2 \<subseteq> task_id ` set ((f2 @ f1) @ (b1 @ b2))"
  proof
    assume "c2 < 100"
    with 2(4) have "c1 < 100" by simp
    with \<open>c2 < 100\<close> 1(3) 2(3) show "E1 \<union> E2 \<subseteq> task_id ` set ((f2 @ f1) @ (b1 @ b2))"
      unfolding s by blast
  qed
  moreover have "c2 = c + int (length ((f2 @ f1) @ (b1 @ b2)))"
    using 1(4) 2(4) by simp
  ultimately show ?thesis unfolding adds_def by blast
qed

lemma leaf_adds:
  assumes "RecLoadTiles_leaf tm info node d level x y = (tm', info')"
  shows "adds (queue_tm tm) (queue_size info) (queue_tm tm') (queue_size info')
     (if tile node = None \<and> TileId level x y \<noteq> loading_tm tm then {TileId level x y} else {})"
proof -
  let ?t = "TileTask (TileId level x y) (bbox node)"
  consider (none) "tm' = tm" "info' = info"
      "\<not> (tile node = None \<and> TileId level x y \<noteq> loading_tm tm) \<or> \<not> queue_size info < 100"
    | (front) "queue_tm tm' = ?t # queue_tm tm" "queue_size info' = queue_size info + 1"
      "tile node = None \<and> TileId level x y \<noteq> loading_tm tm"
    | (rear) "queue_tm tm' = queue_tm tm @ [?t]" "queue_size info' = queue_size info + 1"
      "tile node = None \<and> TileId level x y \<noteq> loading_tm tm"
    using assms by (auto simp: RecLoadTiles_leaf_def split: if_splits)
  then show ?thesis
  proof cases
    case none
    show ?thesis
      unfolding adds_def none(1,2)
      by (rule exI [of _ "[]"], rule exI [of _ "[]"]) (use none(3) in auto)
  next
    case front
    show ?thesis
      unfolding adds_def
      by (rule exI [of _ "[?t]"], rule exI [of _ "[]"]) (use front in simp)
  next
    case rear
    show ?thesis
      unfolding adds_def
      by (rule exI [of _ "[]"], rule exI [of _ "[?t]"]) (use rear in simp)
  qed
qed

text \<open>A walk adds candidates only, and all of them while the count stays below 100.\<close>

lemma walk_adds:
  assumes "RecLoadTiles env tm info pnode level x y = Inr (tm', info', p')"
  shows "level \<le> hires_level_tm tm \<longrightarrow> bboxes_ok_at env (TileId level x y) pnode \<longrightarrow>
    bboxes_ok_at env (TileId level x y) p' \<and>
    adds (queue_tm tm) (queue_size info) (queue_tm tm') (queue_size info')
      (enq env tm (viewer_pos info) (TileId level x y) pnode (nat (hires_level_tm tm - level)))"
  using assms
proof (induction rule: RecLoadTiles_walk_induct)
  case (prune tm info pnode level x y)
  show ?case
  proof (intro impI)
    assume b: "bboxes_ok_at env (TileId level x y) pnode"
    from visit_boxes [OF b, where tm = tm and info = info] prune
    have "\<not> in_range env tm (viewer_pos info) (TileId level x y)" by simp
    then show "bboxes_ok_at env (TileId level x y) pnode \<and>
      adds (queue_tm tm) (queue_size info) (queue_tm tm) (queue_size info)
        (enq env tm (viewer_pos info) (TileId level x y) pnode (nat (hires_level_tm tm - level)))"
      using b by (simp add: enq_pruned adds_refl)
  qed
next
  case (leaf tm info pnode level x y n d tm' info')
  let ?a = "TileId level x y"
  let ?node = "set_generation n (generation_tm tm)"
  show ?case
  proof (intro impI)
    assume b: "bboxes_ok_at env ?a pnode"
    note vb = visit_boxes [OF b, where tm = tm and info = info, THEN conjunct2, rule_format, OF leaf(1)]
    have r: "in_range env tm (viewer_pos info) ?a" and bn: "bboxes_ok env ?a n"
      using vb by simp_all
    have nt: "no_tile pnode [] = (tile n = None)"
    proof (cases pnode)
      case None
      with vb show ?thesis by (simp add: no_tile_def)
    next
      case (Some m)
      with vb have "n = m" by simp
      with Some show ?thesis by (simp add: no_tile_def)
    qed
    have e: "enq env tm (viewer_pos info) ?a pnode (nat (hires_level_tm tm - level)) =
        (if tile ?node = None \<and> ?a \<noteq> loading_tm tm then {?a} else {})"
      using leaf(2) r nt by (cases n) (simp add: enq_leaf)
    show "bboxes_ok_at env ?a (Some ?node) \<and>
      adds (queue_tm tm) (queue_size info) (queue_tm tm') (queue_size info')
        (enq env tm (viewer_pos info) ?a pnode (nat (hires_level_tm tm - level)))"
      unfolding e using bn leaf_adds [OF leaf(3)] by simp
  qed
next
  case (children tm info pnode level x y n d tm1 info1 c0 tm2 info2 c1 tm3 info3 c2 tm4 info4 c3)
  let ?a = "TileId level x y"
  let ?pos = "viewer_pos info"
  note w0 = children.hyps(4) and w1 = children.hyps(5) and w2 = children.hyps(6)
    and w3 = children.hyps(7)
  note s1 = walk_same [OF w0]
  note s2 = same_but_queue_trans [OF s1 walk_same [OF w1]]
  note s3 = same_but_queue_trans [OF s2 walk_same [OF w2]]
  have h: "hires_level_tm tm1 = hires_level_tm tm" "hires_level_tm tm2 = hires_level_tm tm"
    "hires_level_tm tm3 = hires_level_tm tm"
    using s1 s2 s3 by (simp_all add: same_but_queue_def)
  have p: "viewer_pos info1 = ?pos" "viewer_pos info2 = ?pos" "viewer_pos info3 = ?pos"
    using walk_frame_fields(6) [OF w0] walk_frame_fields(6) [OF w1] walk_frame_fields(6) [OF w2]
    by simp_all
  show ?case
  proof (intro impI)
    assume le: "level \<le> hires_level_tm tm" and b: "bboxes_ok_at env ?a pnode"
    with children.hyps(2) have lt: "level + 1 \<le> hires_level_tm tm" by simp
    then obtain k where k: "nat (hires_level_tm tm - level) = Suc k"
      "nat (hires_level_tm tm - (level + 1)) = k"
      by (cases "nat (hires_level_tm tm - level)") auto
    note vb = visit_boxes [OF b, where tm = tm and info = info, THEN conjunct2, rule_format,
        OF children.hyps(1)]
    have bn: "bboxes_ok env ?a n" using vb by simp
    note bc = bboxes_ok_childs [OF bn]
    have q: "quadrant ?a 0 = TileId (level + 1) (x * 2) (y * 2)"
      "quadrant ?a 1 = TileId (level + 1) (x * 2 + 1) (y * 2)"
      "quadrant ?a 2 = TileId (level + 1) (x * 2) (y * 2 + 1)"
      "quadrant ?a 3 = TileId (level + 1) (x * 2 + 1) (y * 2 + 1)"
      by simp_all
    let ?E0 = "enq env tm ?pos (TileId (level + 1) (x * 2) (y * 2)) (child0 n) k"
    let ?E1 = "enq env tm ?pos (TileId (level + 1) (x * 2 + 1) (y * 2)) (child1 n) k"
    let ?E2 = "enq env tm ?pos (TileId (level + 1) (x * 2) (y * 2 + 1)) (child2 n) k"
    let ?E3 = "enq env tm ?pos (TileId (level + 1) (x * 2 + 1) (y * 2 + 1)) (child3 n) k"
    have i0: "bboxes_ok_at env (quadrant ?a 0) c0 \<and>
        adds (queue_tm tm) (queue_size info) (queue_tm tm1) (queue_size info1) ?E0"
      using children.IH(1) lt bc k by (simp add: q)
    have i1: "bboxes_ok_at env (quadrant ?a 1) c1 \<and>
        adds (queue_tm tm1) (queue_size info1) (queue_tm tm2) (queue_size info2) ?E1"
      using children.IH(2) lt bc k h p by (simp add: q enq_frame [OF s1])
    have i2: "bboxes_ok_at env (quadrant ?a 2) c2 \<and>
        adds (queue_tm tm2) (queue_size info2) (queue_tm tm3) (queue_size info3) ?E2"
      using children.IH(3) lt bc k h p by (simp add: q enq_frame [OF s2])
    have i3: "bboxes_ok_at env (quadrant ?a 3) c3 \<and>
        adds (queue_tm tm3) (queue_size info3) (queue_tm tm4) (queue_size info4) ?E3"
      using children.IH(4) lt bc k h p by (simp add: q enq_frame [OF s3])
    have e: "enq env tm ?pos ?a pnode (nat (hires_level_tm tm - level)) = ?E0 \<union> ?E1 \<union> ?E2 \<union> ?E3"
      unfolding k by (rule enq_children [OF children.hyps(1) b])
    have b': "bboxes_ok_at env ?a (Some (QuadNode (bbox n) (tile n) (generation_tm tm) c0 c1 c2 c3))"
      using i0 i1 i2 i3 bc by (simp add: bboxes_ok_node)
    have a4: "adds (queue_tm tm) (queue_size info) (queue_tm tm4) (queue_size info4)
        (?E0 \<union> ?E1 \<union> ?E2 \<union> ?E3)"
      using adds_trans [OF adds_trans [OF adds_trans [OF conjunct2 [OF i0] conjunct2 [OF i1]]
        conjunct2 [OF i2]] conjunct2 [OF i3]] .
    show "bboxes_ok_at env ?a (Some (QuadNode (bbox n) (tile n) (generation_tm tm) c0 c1 c2 c3)) \<and>
      adds (queue_tm tm) (queue_size info) (queue_tm tm4) (queue_size info4)
        (enq env tm ?pos ?a pnode (nat (hires_level_tm tm - level)))"
      unfolding e using b' a4 by blast
  qed
qed

lemma valid_quadrant:
  assumes "valid_tile a" "i < 4"
  shows "valid_tile (quadrant a i)"
proof -
  obtain l x y where a: "a = TileId l x y" by (cases a)
  from assms(1) a have l: "0 \<le> l" and b: "0 \<le> x" "x < 2 ^ nat l" "0 \<le> y" "y < 2 ^ nat l"
    by (simp_all add: valid_tile_def)
  have p: "(2::int) ^ nat (l + 1) = 2 * 2 ^ nat l"
    using l by (simp add: nat_add_distrib)
  have m: "int (i mod 2) \<le> 1" "int (i div 2) \<le> 1" "0 \<le> int (i mod 2)" "0 \<le> int (i div 2)"
    using assms(2) by simp_all
  show ?thesis
    unfolding a quadrant_bits [OF assms(2)] valid_tile_def TileId.sel p
    using l b m by linarith
qed

lemma tid_level_quadrant: "i < 4 \<Longrightarrow> tid_level (quadrant a i) = tid_level a + 1"
  by (cases a) (simp add: quadrant_bits del: quadrant.simps)

lemma in_view_monotone:
  assumes m: "range_monotone env tm pos"
  shows "valid_tile a \<Longrightarrow> list_all (\<lambda>i. i < 4) path \<Longrightarrow>
    tid_level a + int (length path) \<le> hires_level_tm tm \<Longrightarrow>
    in_view env tm pos a path = in_range env tm pos (walk_addr a path)"
proof (induction path arbitrary: a)
  case Nil
  then show ?case by simp
next
  case (Cons i path)
  then have i: "i < 4" and r: "list_all (\<lambda>i. i < 4) path" by simp_all
  have v: "valid_tile (quadrant a i)" by (rule valid_quadrant [OF Cons.prems(1) i])
  have l: "tid_level (quadrant a i) + int (length path) \<le> hires_level_tm tm"
    using Cons.prems(3) tid_level_quadrant [OF i, of a] by simp
  note ih = Cons.IH [OF v r l]
  have up: "in_range env tm pos a" if "in_view env tm pos (quadrant a i) path"
  proof -
    from that have "in_range env tm pos (quadrant a i)" by (rule in_view_head)
    moreover have "tid_level a < hires_level_tm tm" using Cons.prems(3) by simp
    ultimately show ?thesis
      using m Cons.prems(1) i unfolding range_monotone_def by blast
  qed
  show ?case
    using ih up by (auto simp del: quadrant.simps)
qed

lemma enq_root:
  assumes hl: "0 \<le> hires_level_tm tm" and m: "range_monotone env tm pos"
  shows "enq env tm pos (TileId 0 0 0) (Some (root_tm tm)) (nat (hires_level_tm tm)) =
    wanted_leaves env tm pos"
proof -
  let ?k = "nat (hires_level_tm tm)"
  have k: "int ?k = hires_level_tm tm" using hl by simp
  have v0: "valid_tile (TileId 0 0 0)" by (simp add: valid_tile_def)
  have view: "in_view env tm pos (TileId 0 0 0) path = in_range env tm pos (walk_addr (TileId 0 0 0) path)"
    if "list_all (\<lambda>i. i < 4) path" "length path = ?k" for path
    using in_view_monotone [OF m v0 that(1)] that(2) hl by simp
  show ?thesis
  proof (intro equalityI subsetI)
    fix u assume "u \<in> enq env tm pos (TileId 0 0 0) (Some (root_tm tm)) ?k"
    then obtain path where p: "u = walk_addr (TileId 0 0 0) path" "length path = ?k"
      "list_all (\<lambda>i. i < 4) path" "in_view env tm pos (TileId 0 0 0) path"
      "no_tile (Some (root_tm tm)) path" "walk_addr (TileId 0 0 0) path \<noteq> loading_tm tm"
      unfolding enq_def cand_def by blast
    have u: "u = TileId (hires_level_tm tm) (path_x path) (path_y path)"
      using walk_addr_path [OF p(3), of 0 0 0] p(1,2) k by simp
    have pp: "place_path ?k (path_x path) (path_y path) = path"
      using place_path_of_path [OF p(3), of 0 0] p(2) by simp
    have "in_range env tm pos u" using view [OF p(3,2)] p(1,4) by simp
    with u pp p path_x_bounds [OF p(3)] path_y_bounds [OF p(3)]
    show "u \<in> wanted_leaves env tm pos"
      unfolding wanted_leaves_def by auto
  next
    fix u assume "u \<in> wanted_leaves env tm pos"
    then obtain x y where w: "u = TileId (hires_level_tm tm) x y"
      "0 \<le> x" "x < 2 ^ ?k" "0 \<le> y" "y < 2 ^ ?k"
      "in_range env tm pos (TileId (hires_level_tm tm) x y)"
      "no_tile (Some (root_tm tm)) (place_path ?k x y)"
      "TileId (hires_level_tm tm) x y \<noteq> loading_tm tm"
      unfolding wanted_leaves_def by blast
    let ?path = "place_path ?k x y"
    have a: "walk_addr (TileId 0 0 0) ?path = u"
      using w(1-5) k by (simp add: walk_addr_place_path take_bit_int_eq_self)
    have l: "list_all (\<lambda>i. i < 4) ?path" by (rule place_path_lt4)
    have "in_view env tm pos (TileId 0 0 0) ?path"
      using view [OF l] a w(1,6) by simp
    with l a w have "cand env tm pos (TileId 0 0 0) (Some (root_tm tm)) ?path"
      by (simp add: cand_def)
    with a show "u \<in> enq env tm pos (TileId 0 0 0) (Some (root_tm tm)) ?k"
      unfolding enq_def by force
  qed
qed

lemma enq_root_reached:
  assumes hl: "0 \<le> hires_level_tm tm"
  shows "enq env tm pos (TileId 0 0 0) (Some (root_tm tm)) (nat (hires_level_tm tm)) =
    reached_leaves env tm pos"
proof -
  let ?k = "nat (hires_level_tm tm)"
  have k: "int ?k = hires_level_tm tm" using hl by simp
  show ?thesis
  proof (intro equalityI subsetI)
    fix u assume "u \<in> enq env tm pos (TileId 0 0 0) (Some (root_tm tm)) ?k"
    then obtain path where p: "u = walk_addr (TileId 0 0 0) path" "length path = ?k"
      "list_all (\<lambda>i. i < 4) path" "in_view env tm pos (TileId 0 0 0) path"
      "no_tile (Some (root_tm tm)) path" "walk_addr (TileId 0 0 0) path \<noteq> loading_tm tm"
      unfolding enq_def cand_def by blast
    have u: "u = TileId (hires_level_tm tm) (path_x path) (path_y path)"
      using walk_addr_path [OF p(3), of 0 0 0] p(1,2) k by simp
    have pp: "place_path ?k (path_x path) (path_y path) = path"
      using place_path_of_path [OF p(3), of 0 0] p(2) by simp
    from u pp p path_x_bounds [OF p(3)] path_y_bounds [OF p(3)]
    show "u \<in> reached_leaves env tm pos"
      unfolding reached_leaves_def by auto
  next
    fix u assume "u \<in> reached_leaves env tm pos"
    then obtain x y where w: "u = TileId (hires_level_tm tm) x y"
      "0 \<le> x" "x < 2 ^ ?k" "0 \<le> y" "y < 2 ^ ?k"
      "in_view env tm pos (TileId 0 0 0) (place_path ?k x y)"
      "no_tile (Some (root_tm tm)) (place_path ?k x y)"
      "TileId (hires_level_tm tm) x y \<noteq> loading_tm tm"
      unfolding reached_leaves_def by blast
    let ?path = "place_path ?k x y"
    have a: "walk_addr (TileId 0 0 0) ?path = u"
      using w(1-5) k by (simp add: walk_addr_place_path take_bit_int_eq_self)
    have l: "list_all (\<lambda>i. i < 4) ?path" by (rule place_path_lt4)
    from l a w have "cand env tm pos (TileId 0 0 0) (Some (root_tm tm)) ?path"
      by (simp add: cand_def)
    with a show "u \<in> enq env tm pos (TileId 0 0 0) (Some (root_tm tm)) ?k"
      unfolding enq_def by force
  qed
qed

lemma in_view_last:
  "in_view env tm pos a path \<Longrightarrow> in_range env tm pos (walk_addr a path)"
  by (induction path arbitrary: a) (simp_all del: quadrant.simps)

lemma reached_wanted:
  assumes hl: "0 \<le> hires_level_tm tm"
  shows "reached_leaves env tm pos \<subseteq> wanted_leaves env tm pos"
proof
  fix u assume "u \<in> reached_leaves env tm pos"
  let ?k = "nat (hires_level_tm tm)"
  have k: "int ?k = hires_level_tm tm" using hl by simp
  from \<open>u \<in> reached_leaves env tm pos\<close> obtain x y where w: "u = TileId (hires_level_tm tm) x y"
      "0 \<le> x" "x < 2 ^ ?k" "0 \<le> y" "y < 2 ^ ?k"
      "in_view env tm pos (TileId 0 0 0) (place_path ?k x y)"
      "no_tile (Some (root_tm tm)) (place_path ?k x y)"
      "TileId (hires_level_tm tm) x y \<noteq> loading_tm tm"
    unfolding reached_leaves_def by blast
  have a: "walk_addr (TileId 0 0 0) (place_path ?k x y) = u"
    using w(1-5) k by (simp add: walk_addr_place_path take_bit_int_eq_self)
  from in_view_last [OF w(6)] a w(1) have "in_range env tm pos (TileId (hires_level_tm tm) x y)"
    by simp
  with w show "u \<in> wanted_leaves env tm pos"
    unfolding wanted_leaves_def by blast
qed

lemma reached_monotone:
  assumes hl: "0 \<le> hires_level_tm tm" and m: "range_monotone env tm pos"
  shows "reached_leaves env tm pos = wanted_leaves env tm pos"
  using enq_root [OF hl m] enq_root_reached [OF hl, of env pos] by simp

lemma reached_leaves_cong:
  assumes "hires_level_tm tm' = hires_level_tm tm" "hires_range_tm tm' = hires_range_tm tm"
    "loading_tm tm' = loading_tm tm"
    "\<forall>path. no_tile (Some (root_tm tm')) path = no_tile (Some (root_tm tm)) path"
  shows "reached_leaves env tm' pos = reached_leaves env tm pos"
  using assms in_view_frame [of tm' tm env pos]
  by (simp add: reached_leaves_def)

lemma visit_tile:
  "RecLoadTiles_visit env tm info pnode level x y = Some (n, d) \<Longrightarrow>
   (pnode = None \<longrightarrow> tile n = None \<and> child0 n = None \<and> child1 n = None \<and> child2 n = None \<and>
      child3 n = None) \<and> (\<forall>m. pnode = Some m \<longrightarrow> n = m)"
  by (cases pnode) (auto dest: visit_None_cases visit_Some_cases)

lemma no_tile_None [simp]: "no_tile None path"
  by (simp add: no_tile_def)

lemma no_tile_Cons: "no_tile (Some n) (i # path) = no_tile (childs n i) path"
  by (simp add: no_tile_def)

lemma no_tile_Nil: "no_tile (Some n) [] = (tile n = None)"
  by (simp add: no_tile_def)

lemma walk_no_tile:
  assumes "RecLoadTiles env tm info pnode level x y = Inr (tm', info', p')"
  shows "no_tile p' path = no_tile pnode path"
  using assms
proof (induction arbitrary: path rule: RecLoadTiles_walk_induct)
  case (prune tm info pnode level x y)
  then show ?case by simp
next
  case (leaf tm info pnode level x y n d tm' info')
  note vt = visit_tile [OF leaf(1)]
  show ?case
  proof (cases pnode)
    case None
    with vt show ?thesis
      by (cases n; cases path) (simp_all add: no_tile_Cons no_tile_Nil)
  next
    case (Some m)
    with vt have "n = m" by simp
    with Some show ?thesis
      by (cases m; cases path) (simp_all add: no_tile_Cons no_tile_Nil)
  qed
next
  case (children tm info pnode level x y n d tm1 info1 c0 tm2 info2 c1 tm3 info3 c2 tm4 info4 c3)
  note vt = visit_tile [OF children.hyps(1)]
  let ?p = "QuadNode (bbox n) (tile n) (generation_tm tm) c0 c1 c2 c3"
  have step: "no_tile (childs ?p i) rest = no_tile (childs n i) rest" for i rest
    using children.IH [of rest] by (cases n) simp
  have "no_tile (Some ?p) path = no_tile (Some n) path"
    by (cases path) (simp_all only: no_tile_Cons no_tile_Nil step QuadNode.sel)
  moreover have "no_tile (Some n) path = no_tile pnode path"
  proof (cases pnode)
    case None
    with vt show ?thesis
      by (cases n; cases path) (simp_all add: no_tile_Cons no_tile_Nil)
  next
    case (Some m)
    with vt show ?thesis by simp
  qed
  ultimately show ?case by simp
qed

lemma walk_root_adds:
  assumes hl: "0 \<le> hires_level_tm tm" "hires_level_tm tm \<le> 30"
    and boxes: "bboxes_ok env (TileId 0 0 0) (root_tm tm)"
    and size0: "queue_size info = 0"
  shows "\<exists>tm1 info1 r fr bk.
     RecLoadTiles env tm info (Some (root_tm tm)) 0 0 0 = Inr (tm1, info1, Some r) \<and>
     same_but_queue tm tm1 \<and> bboxes_ok env (TileId 0 0 0) r \<and>
     (\<forall>path. no_tile (Some r) path = no_tile (Some (root_tm tm)) path) \<and>
     queue_tm tm1 = fr @ queue_tm tm @ bk \<and>
     task_id ` set (fr @ bk) \<subseteq> reached_leaves env tm (viewer_pos info) \<and>
     (length (fr @ bk) < 100 \<longrightarrow>
        task_id ` set (fr @ bk) = reached_leaves env tm (viewer_pos info))"
proof -
  have "\<exists>r. RecLoadTiles env tm info (Some (root_tm tm)) 0 0 0 = Inr r"
    by (rule RecLoadTiles_returns) (use hl in simp_all)
  then obtain tm1 info1 rt where
    w: "RecLoadTiles env tm info (Some (root_tm tm)) 0 0 0 = Inr (tm1, info1, rt)"
    by (metis prod_cases3)
  from walk_Some [OF w] obtain r where rt: "rt = Some r" by auto
  have e: "enq env tm (viewer_pos info) (TileId 0 0 0) (Some (root_tm tm))
      (nat (hires_level_tm tm - 0)) = reached_leaves env tm (viewer_pos info)"
    using enq_root_reached [OF hl(1), of env "viewer_pos info"] by simp
  have b0: "bboxes_ok_at env (TileId 0 0 0) (Some (root_tm tm))"
    using boxes by simp
  note wa = walk_adds [OF w, THEN mp, OF hl(1), THEN mp, OF b0]
  have b: "bboxes_ok env (TileId 0 0 0) r"
    using conjunct1 [OF wa] by (simp add: rt)
  have a: "adds (queue_tm tm) 0 (queue_tm tm1) (queue_size info1)
      (reached_leaves env tm (viewer_pos info))"
    using conjunct2 [OF wa] unfolding e size0 .
  from a obtain fr bk where q: "queue_tm tm1 = fr @ queue_tm tm @ bk"
    "task_id ` set (fr @ bk) \<subseteq> reached_leaves env tm (viewer_pos info)"
    "queue_size info1 < 100 \<longrightarrow> reached_leaves env tm (viewer_pos info) \<subseteq> task_id ` set (fr @ bk)"
    "queue_size info1 = 0 + int (length (fr @ bk))"
    unfolding adds_def by blast
  from q(2,3,4) have eq: "length (fr @ bk) < 100 \<longrightarrow>
      task_id ` set (fr @ bk) = reached_leaves env tm (viewer_pos info)"
    by auto
  have nt: "\<forall>path. no_tile (Some r) path = no_tile (Some (root_tm tm)) path"
    using walk_no_tile [OF w] by (simp add: rt)
  from w rt have "RecLoadTiles env tm info (Some (root_tm tm)) 0 0 0 = Inr (tm1, info1, Some r)"
    by simp
  with walk_same [OF w] b nt q(1,2) eq show ?thesis by blast
qed

lemma LoadLocality_adds:
  assumes hl: "0 \<le> hires_level_tm tm" "hires_level_tm tm \<le> 30"
    and boxes: "bboxes_ok env (TileId 0 0 0) (root_tm tm)"
  shows "\<exists>tm' signal fr bk. LoadLocality env tm viewer flags = Inr (tm', signal) \<and>
     hires_level_tm tm' = hires_level_tm tm \<and> hires_range_tm tm' = hires_range_tm tm \<and>
     loading_tm tm' = loading_tm tm \<and>
     bboxes_ok env (TileId 0 0 0) (root_tm tm') \<and>
     (\<forall>path. no_tile (Some (root_tm tm')) path = no_tile (Some (root_tm tm)) path) \<and>
     queue_tm tm' = fr @ (if flags AND SYNC env = 0 then [] else queue_tm tm) @ bk \<and>
     task_id ` set (fr @ bk) \<subseteq> reached_leaves env tm (GetPos env viewer) \<and>
     (length (fr @ bk) < 100 \<longrightarrow>
        task_id ` set (fr @ bk) = reached_leaves env tm (GetPos env viewer))"
proof -
  define tmc where "tmc = (if flags AND SYNC env = 0 then tm\<lparr>queue_tm := []\<rparr> else tm)"
  let ?info = "new_RecLoadTilesInfo env viewer flags"
  let ?pos = "GetPos env viewer"
  have f0: "hires_level_tm tmc = hires_level_tm tm" "root_tm tmc = root_tm tm"
    "queue_tm tmc = (if flags AND SYNC env = 0 then [] else queue_tm tm)"
    "hires_range_tm tmc = hires_range_tm tm" "loading_tm tmc = loading_tm tm"
    by (simp_all add: tmc_def)
  have pos: "viewer_pos ?info = ?pos" and size0: "queue_size ?info = 0"
    by (simp_all add: new_RecLoadTilesInfo_def)
  have hc: "0 \<le> hires_level_tm tmc" "hires_level_tm tmc \<le> 30"
    and bc: "bboxes_ok env (TileId 0 0 0) (root_tm tmc)"
    using hl boxes by (simp_all only: f0)
  have rc: "reached_leaves env tmc ?pos = reached_leaves env tm ?pos"
    by (rule reached_leaves_cong) (simp_all only: f0 simp_thms)
  from walk_root_adds [OF hc bc size0] obtain tm1 info1 r fr bk where
    w0: "RecLoadTiles env tmc ?info (Some (root_tm tmc)) 0 0 0 = Inr (tm1, info1, Some r)"
    and s: "same_but_queue tmc tm1"
    and b: "bboxes_ok env (TileId 0 0 0) r"
    and nt0: "\<forall>path. no_tile (Some r) path = no_tile (Some (root_tm tmc)) path"
    and q0: "queue_tm tm1 = fr @ queue_tm tmc @ bk"
      "task_id ` set (fr @ bk) \<subseteq> reached_leaves env tmc (viewer_pos ?info)"
      "length (fr @ bk) < 100 \<longrightarrow>
         task_id ` set (fr @ bk) = reached_leaves env tmc (viewer_pos ?info)"
    by (elim exE conjE)
  note w = w0 [unfolded f0(2)]
  note nt = nt0 [unfolded f0(2)]
  note q = q0(1) [unfolded f0(3)] q0(2) [unfolded pos rc] q0(3) [unfolded pos rc]
  have res: "LoadLocality env tm viewer flags =
      Inr (tm1\<lparr>root_tm := r\<rparr>, flags AND SYNC env = 0 \<and> queue_tm tm1 \<noteq> [])"
    unfolding LoadLocality_unfold tmc_def [symmetric] w by simp
  have fr: "hires_level_tm (tm1\<lparr>root_tm := r\<rparr>) = hires_level_tm tm \<and>
     hires_range_tm (tm1\<lparr>root_tm := r\<rparr>) = hires_range_tm tm \<and>
     loading_tm (tm1\<lparr>root_tm := r\<rparr>) = loading_tm tm \<and>
     bboxes_ok env (TileId 0 0 0) (root_tm (tm1\<lparr>root_tm := r\<rparr>)) \<and>
     (\<forall>path. no_tile (Some (root_tm (tm1\<lparr>root_tm := r\<rparr>))) path = no_tile (Some (root_tm tm)) path) \<and>
     queue_tm (tm1\<lparr>root_tm := r\<rparr>) = fr @ (if flags AND SYNC env = 0 then [] else queue_tm tm) @ bk"
    using s b nt q(1) f0 by (simp add: same_but_queue_def)
  show ?thesis
    apply (rule exI [of _ "tm1\<lparr>root_tm := r\<rparr>"])
    apply (rule exI [of _ "flags AND SYNC env = 0 \<and> queue_tm tm1 \<noteq> []"])
    apply (rule exI [of _ fr])
    apply (rule exI [of _ bk])
    using res fr q(2,3) apply (simp only: simp_thms)
    done
qed

lemma LoadLocality_calls_frame:
  assumes "0 \<le> hires_level_tm tm" "hires_level_tm tm \<le> 30"
    and "bboxes_ok env (TileId 0 0 0) (root_tm tm)"
  shows "\<exists>tm'. LoadLocality_calls env tm viewer calls = Inr tm' \<and>
     hires_level_tm tm' = hires_level_tm tm \<and> hires_range_tm tm' = hires_range_tm tm \<and>
     loading_tm tm' = loading_tm tm \<and>
     bboxes_ok env (TileId 0 0 0) (root_tm tm') \<and>
     (\<forall>path. no_tile (Some (root_tm tm')) path = no_tile (Some (root_tm tm)) path)"
  using assms
proof (induction calls arbitrary: tm)
  case Nil
  then show ?case by simp
next
  case (Cons flags rest)
  from LoadLocality_adds [OF Cons.prems, of viewer flags] obtain tm1 signal where
    r: "LoadLocality env tm viewer flags = Inr (tm1, signal)"
    and f: "hires_level_tm tm1 = hires_level_tm tm" "hires_range_tm tm1 = hires_range_tm tm"
      "loading_tm tm1 = loading_tm tm"
      "\<forall>path. no_tile (Some (root_tm tm1)) path = no_tile (Some (root_tm tm)) path"
    and b: "bboxes_ok env (TileId 0 0 0) (root_tm tm1)"
    by blast
  have "\<exists>tm'. LoadLocality_calls env tm1 viewer rest = Inr tm' \<and>
     hires_level_tm tm' = hires_level_tm tm1 \<and> hires_range_tm tm' = hires_range_tm tm1 \<and>
     loading_tm tm' = loading_tm tm1 \<and>
     bboxes_ok env (TileId 0 0 0) (root_tm tm') \<and>
     (\<forall>path. no_tile (Some (root_tm tm')) path = no_tile (Some (root_tm tm1)) path)"
    by (rule Cons.IH) (use Cons.prems f b in simp_all)
  then show ?case using r f by auto
qed

lemma visit_dist:
  "RecLoadTiles_visit env tm info pnode level x y = Some (n, d) \<Longrightarrow>
   \<exists>b. d = ApproxDistanceSquare env b (Flattened env (viewer_pos info))"
  by (cases pnode) (auto dest: visit_None_cases visit_Some_cases)

lemma place_path_Cons: "0 < k \<Longrightarrow> \<exists>i rest. place_path k x y = i # rest"
  by (cases k) simp_all

lemma no_tile_fresh_root:
  "0 < k \<Longrightarrow> no_tile (Some (QuadNode b None s None None None None)) (place_path k x y)"
  using place_path_Cons [of k x y] by (auto simp: no_tile_Cons)

subsection \<open>The invariant of the boxes\<close>

text \<open>The constructor establishes it when a default node carries the box of the
  root tile, and the collector and the placement keep it, as the walk does.\<close>

lemma new_boxes:
  "QuadNode_bbox0 env = ForGeoTile env 0 0 0 \<Longrightarrow>
   bboxes_ok env (TileId 0 0 0) (root_tm (TileManager_new env))"
  by (simp add: TileManager_new_def new_QuadNode_def bboxes_ok.simps)

lemma RecGC_boxes:
  "bboxes_ok env a n \<Longrightarrow> bboxes_ok env a (RecGarbageCollectTiles g n)"
proof (induction n arbitrary: a)
  case (QuadNode b t s c0 c1 c2 c3)
  have slot: "bboxes_ok_at env q
      (case c of None \<Rightarrow> None
       | Some ch \<Rightarrow> if generation ch \<noteq> g then None else Some (RecGarbageCollectTiles g ch))"
    if "bboxes_ok_at env q c"
      and "\<And>ch q. ch \<in> set_option c \<Longrightarrow> bboxes_ok env q ch \<Longrightarrow>
             bboxes_ok env q (RecGarbageCollectTiles g ch)" for c q
    using that by (cases c) auto
  from QuadNode.prems have b: "b = ForGeoTile env (tid_level a) (tid_x a) (tid_y a)"
    "bboxes_ok_at env (quadrant a 0) c0" "bboxes_ok_at env (quadrant a 1) c1"
    "bboxes_ok_at env (quadrant a 2) c2" "bboxes_ok_at env (quadrant a 3) c3"
    by (simp_all add: bboxes_ok_node)
  show ?case
    unfolding RecGarbageCollectTiles.simps bboxes_ok_node
    using b slot [OF b(2) QuadNode.IH(1)] slot [OF b(3) QuadNode.IH(2)]
      slot [OF b(4) QuadNode.IH(3)] slot [OF b(5) QuadNode.IH(4)]
    by blast
qed

lemma GarbageCollect_boxes:
  "bboxes_ok env (TileId 0 0 0) (root_tm tm) \<Longrightarrow>
   bboxes_ok env (TileId 0 0 0) (root_tm (GarbageCollect tm))"
  by (simp add: GarbageCollect_def RecGC_boxes)

lemma set_tile_boxes [simp]: "bboxes_ok env a (set_tile n t) = bboxes_ok env a n"
  by (cases n) (simp add: bboxes_ok.simps)

lemma set_child_boxes:
  "bboxes_ok env a n \<Longrightarrow> i < 4 \<Longrightarrow> bboxes_ok_at env (quadrant a i) c \<Longrightarrow>
   bboxes_ok env a (set_child n i c)"
proof -
  assume n: "bboxes_ok env a n" and i: "i < 4" and c: "bboxes_ok_at env (quadrant a i) c"
  obtain b t s c0 c1 c2 c3 where q: "n = QuadNode b t s c0 c1 c2 c3" by (cases n)
  from i have "i = 0 \<or> i = 1 \<or> i = 2 \<or> i = 3" by linarith
  then show ?thesis
    using n c unfolding q by (elim disjE) (simp_all add: bboxes_ok_node del: quadrant.simps)
qed

lemma RecPlaceTile_boxes:
  "RecPlaceTile p tp level x y = Inr (p', deleted) \<Longrightarrow> bboxes_ok_at env a p \<Longrightarrow>
   bboxes_ok_at env a p'"
proof (induction p tp level x y arbitrary: a p' deleted rule: RecPlaceTile.induct)
  case (1 tp level x y)
  then show ?case by simp
next
  case (2 node tp level x y)
  show ?case
  proof (cases "level = 0")
    case True
    with 2(2,3) show ?thesis by (auto split: if_splits)
  next
    case False
    with 2(2) have lv: "\<not> (level < 0 \<or> 31 < level)" by (auto split: if_splits)
    let ?i = "nchild level x y"
    from 2(2) False lv obtain c where
      r: "RecPlaceTile (childs node ?i) tp (level - 1) x y = Inr (c, deleted)"
      and p': "p' = Some (set_child node ?i c)"
      by (auto split: sum.splits)
    have i: "?i < 4" using False lv by (simp add: nchild_lt4)
    have n: "bboxes_ok env a node" using 2(3) by simp
    have "bboxes_ok_at env (quadrant a ?i) (childs node ?i)"
    proof -
      obtain b t s c0 c1 c2 c3 where q: "node = QuadNode b t s c0 c1 c2 c3" by (cases node)
      from i have "?i = 0 \<or> ?i = 1 \<or> ?i = 2 \<or> ?i = 3" by linarith
      then show ?thesis
        using n unfolding q by (elim disjE) (simp_all add: bboxes_ok_node del: quadrant.simps)
    qed
    from 2(1) [OF False lv r this] have "bboxes_ok_at env (quadrant a ?i) c" .
    with n i show ?thesis unfolding p' by (simp add: set_child_boxes)
  qed
qed

subsection \<open>On the grid, a tile is in range when a quadrant of it is\<close>

lemma axis_gap_nonneg: "0 < w \<Longrightarrow> 0 \<le> axis_gap l w p"
  by (simp add: axis_gap_def)

lemma axis_gap_inner:
  "0 < w' \<Longrightarrow> l \<le> l' \<Longrightarrow> l' + w' \<le> l + w \<Longrightarrow> axis_gap l w p \<le> axis_gap l' w' p"
  by (simp add: axis_gap_def)

lemma square_mono_int: "0 \<le> a \<Longrightarrow> a \<le> b \<Longrightarrow> a * a \<le> b * (b::int)"
  by (rule mult_mono) simp_all

lemma grid_dist_inner:
  assumes w: "0 < w'" and x: "l \<le> l'" "l' + w' \<le> l + w" and y: "b \<le> b'" "b' + w' \<le> b + w"
  shows "ApproxDistanceSquare (grid_env s) (l, b, w) pos \<le>
         ApproxDistanceSquare (grid_env s) (l', b', w') pos"
proof -
  obtain px py where pos: "pos = (px, py)" by (cases pos)
  have w0: "0 < w" using w x by linarith
  have "axis_gap l w px * axis_gap l w px \<le> axis_gap l' w' px * axis_gap l' w' px"
    by (rule square_mono_int [OF axis_gap_nonneg [OF w0] axis_gap_inner [OF w x]])
  moreover have "axis_gap b w py * axis_gap b w py \<le> axis_gap b' w' py * axis_gap b' w' py"
    by (rule square_mono_int [OF axis_gap_nonneg [OF w0] axis_gap_inner [OF w y]])
  ultimately have "s * s * (axis_gap l w px * axis_gap l w px + axis_gap b w py * axis_gap b w py)
      \<le> s * s * (axis_gap l' w' px * axis_gap l' w' px + axis_gap b' w' py * axis_gap b' w' py)"
    by (intro mult_left_mono add_mono) simp_all
  then have "real_of_int
      (s * s * (axis_gap l w px * axis_gap l w px + axis_gap b w py * axis_gap b w py))
      \<le> real_of_int
      (s * s * (axis_gap l' w' px * axis_gap l' w' px + axis_gap b' w' py * axis_gap b' w' py))"
    by (simp only: of_int_le_iff)
  then show ?thesis
    unfolding pos by (simp add: grid_env_def)
qed

lemma grid_quadrant_inner:
  assumes l: "0 \<le> level" "level < 13" and i: "i < 4"
  shows "ApproxDistanceSquare (grid_env s) (ForGeoTile (grid_env s) level x y) pos \<le>
    ApproxDistanceSquare (grid_env s)
      (ForGeoTile (grid_env s) (level + 1) (x * 2 + int (i mod 2)) (y * 2 + int (i div 2))) pos"
proof -
  let ?w = "(2::int) ^ nat (12 - level)"
  have p: "(2::int) ^ nat (13 - level) = 2 * ?w"
  proof -
    have "nat (13 - level) = Suc (nat (12 - level))" using l by simp
    then show ?thesis by simp
  qed
  have f: "ForGeoTile (grid_env s) level x y = (x * (2 * ?w), y * (2 * ?w), 2 * ?w)"
    "ForGeoTile (grid_env s) (level + 1) (x * 2 + int (i mod 2)) (y * 2 + int (i div 2)) =
       ((x * 2 + int (i mod 2)) * ?w, (y * 2 + int (i div 2)) * ?w, ?w)"
    using p by (simp_all add: grid_env_def algebra_simps)
  have w: "0 < ?w" by simp
  have m: "0 \<le> int (i mod 2)" "int (i mod 2) \<le> 1" "0 \<le> int (i div 2)" "int (i div 2) \<le> 1"
    using i by simp_all
  have bx: "0 \<le> int (i mod 2) * ?w" "int (i mod 2) * ?w \<le> ?w"
    using m(1,2) w by (simp_all add: mult_le_cancel_right1)
  have by': "0 \<le> int (i div 2) * ?w" "int (i div 2) * ?w \<le> ?w"
    using m(3,4) w by (simp_all add: mult_le_cancel_right1)
  show ?thesis
    unfolding f
    by (rule grid_dist_inner [OF w]) (use bx by' in \<open>simp_all add: algebra_simps\<close>)
qed

lemma grid_range_monotone:
  assumes "hires_level_tm tm \<le> 13"
  shows "range_monotone (grid_env s) tm pos"
  unfolding range_monotone_def
proof (intro allI impI)
  fix a i
  assume h: "valid_tile a \<and> tid_level a < hires_level_tm tm \<and> i < 4 \<and>
             in_range (grid_env s) tm pos (quadrant a i)"
  obtain level x y where a: "a = TileId level x y" by (cases a)
  from h a assms have l: "0 \<le> level" "level < 13" and i: "i < 4"
    by (simp_all add: valid_tile_def)
  from h have "in_range (grid_env s) tm pos (quadrant a i)" by simp
  with grid_quadrant_inner [OF l i, of s x y "Flattened (grid_env s) pos"]
  show "in_range (grid_env s) tm pos a"
    unfolding a quadrant_bits [OF i] in_range_def TileId.sel by linarith
qed

lemma grid_new_boxes:
  "bboxes_ok (grid_env s) (TileId 0 0 0) (root_tm (TileManager_new (grid_env s)))"
  by (simp add: TileManager_new_def new_QuadNode_def bboxes_ok.simps grid_env_def)

subsection \<open>The enqueued set\<close>

text \<open>Once the queue is not empty and the closest distance recorded is 0, a walk in
  a geometry of non-negative distances pushes to the back only, and no more than the
  cap allows.\<close>

lemma leaf_capped:
  assumes "RecLoadTiles_leaf tm info node d level x y = (tm', info')" and "capped tm info"
    and "0 \<le> d"
  shows "capped tm' info'"
  using assms by (auto simp: RecLoadTiles_leaf_def capped_def split: if_splits)

lemma walk_capped:
  assumes "RecLoadTiles env tm info pnode level x y = Inr (tm', info', p')"
    and nonneg: "\<And>b v. 0 \<le> ApproxDistanceSquare env b v"
  shows "capped tm info \<longrightarrow> capped tm' info'"
  using assms(1)
proof (induction rule: RecLoadTiles_walk_induct)
  case (prune tm info pnode level x y)
  then show ?case by simp
next
  case (leaf tm info pnode level x y n d tm' info')
  from visit_dist [OF leaf(1)] nonneg have "0 \<le> d" by auto
  with leaf(3) show ?case using leaf_capped by blast
next
  case (children tm info pnode level x y n d tm1 info1 c0 tm2 info2 c1 tm3 info3 c2 tm4 info4 c3)
  then show ?case by blast
qed

text \<open>The first leaf a walk reaches is the one in the corner: when the viewer is at
  distance 0 of every tile above it, the walk that starts with an empty queue pushes
  that leaf first, with the closest distance 0.\<close>

lemma walk_first_leaf:
  assumes "RecLoadTiles env tm info pnode level x y = Inr (tm', info', p')"
    and nonneg: "\<And>b v. 0 \<le> ApproxDistanceSquare env b v"
    and zero: "\<And>l. ApproxDistanceSquare env (ForGeoTile env l 0 0) (Flattened env pos) = 0"
  shows "x = 0 \<and> y = 0 \<and> viewer_pos info = pos \<and> level \<le> hires_level_tm tm \<and> queue_tm tm = [] \<and> queue_size info = 0 \<and>
     bboxes_ok_at env (TileId level 0 0) pnode \<and>
     no_tile pnode (replicate (nat (hires_level_tm tm - level)) 0) \<and>
     loading_tm tm \<noteq> TileId (hires_level_tm tm) 0 0 \<longrightarrow> capped tm' info'"
  using assms(1)
proof (induction rule: RecLoadTiles_walk_induct)
  case (prune tm info pnode level x y)
  show ?case
  proof (intro impI)
    assume a: "x = 0 \<and> y = 0 \<and> viewer_pos info = pos \<and> level \<le> hires_level_tm tm \<and> queue_tm tm = [] \<and>
      queue_size info = 0 \<and> bboxes_ok_at env (TileId level 0 0) pnode \<and>
      no_tile pnode (replicate (nat (hires_level_tm tm - level)) 0) \<and>
      loading_tm tm \<noteq> TileId (hires_level_tm tm) 0 0"
    then have b: "bboxes_ok_at env (TileId level x y) pnode" by simp
    from visit_boxes [OF b, where tm = tm and info = info] prune
    have "\<not> in_range env tm (viewer_pos info) (TileId level x y)" by simp
    moreover have "in_range env tm (viewer_pos info) (TileId level x y)"
      using a by (simp add: in_range_def zero)
    ultimately show "capped tm info" by simp
  qed
next
  case (leaf tm info pnode level x y n d tm' info')
  show ?case
  proof (intro impI)
    assume a: "x = 0 \<and> y = 0 \<and> viewer_pos info = pos \<and> level \<le> hires_level_tm tm \<and> queue_tm tm = [] \<and>
      queue_size info = 0 \<and> bboxes_ok_at env (TileId level 0 0) pnode \<and>
      no_tile pnode (replicate (nat (hires_level_tm tm - level)) 0) \<and>
      loading_tm tm \<noteq> TileId (hires_level_tm tm) 0 0"
    then have b: "bboxes_ok_at env (TileId level x y) pnode" by simp
    note vb = visit_boxes [OF b, where tm = tm and info = info, THEN conjunct2, rule_format, OF leaf(1)]
    note vt = visit_tile [OF leaf(1)]
    have bn: "bbox n = ForGeoTile env level 0 0"
      using vb a bboxes_ok_childs [of env "TileId level x y" n] by simp
    have "d = ApproxDistanceSquare env (bbox n) (Flattened env (viewer_pos info))"
      using leaf(1) vt by (cases pnode) (auto dest: visit_None_cases visit_Some_cases)
    with a have d: "d = 0" by (simp add: bn zero)
    have t: "tile n = None"
    proof (cases pnode)
      case None
      with vt show ?thesis by simp
    next
      case (Some m)
      with vt a leaf(2) show ?thesis by (simp add: no_tile_Nil)
    qed
    from leaf(3) t a leaf(2) d
    show "capped tm' info'"
      by (auto simp add: leaf_admit_empty capped_def)
  qed
next
  case (children tm info pnode level x y n d tm1 info1 c0 tm2 info2 c1 tm3 info3 c2 tm4 info4 c3)
  show ?case
  proof (intro impI)
    assume a: "x = 0 \<and> y = 0 \<and> viewer_pos info = pos \<and> level \<le> hires_level_tm tm \<and> queue_tm tm = [] \<and>
      queue_size info = 0 \<and> bboxes_ok_at env (TileId level 0 0) pnode \<and>
      no_tile pnode (replicate (nat (hires_level_tm tm - level)) 0) \<and>
      loading_tm tm \<noteq> TileId (hires_level_tm tm) 0 0"
    then have b: "bboxes_ok_at env (TileId level x y) pnode" by simp
    note vb = visit_boxes [OF b, where tm = tm and info = info, THEN conjunct2, rule_format,
        OF children.hyps(1)]
    note vt = visit_tile [OF children.hyps(1)]
    from a children.hyps(2) have lt: "level + 1 \<le> hires_level_tm tm" by simp
    then obtain k where k: "nat (hires_level_tm tm - level) = Suc k"
      "nat (hires_level_tm tm - (level + 1)) = k"
      by (cases "nat (hires_level_tm tm - level)") auto
    have b0: "bboxes_ok_at env (TileId (level + 1) 0 0) (child0 n)"
      using vb a bboxes_ok_childs [of env "TileId level x y" n] by simp
    have nt: "no_tile (child0 n) (replicate k 0)"
    proof (cases pnode)
      case None
      with vt show ?thesis by simp
    next
      case (Some m)
      with vt a k show ?thesis by (cases m) (simp add: no_tile_Cons)
    qed
    have "capped tm1 info1"
      using children.IH(1) a lt k b0 nt by simp
    with walk_capped [OF children.hyps(5) nonneg] walk_capped [OF children.hyps(6) nonneg]
      walk_capped [OF children.hyps(7) nonneg]
    show "capped tm4 info4" by blast
  qed
qed

lemma grid_dist_nonneg: "0 \<le> ApproxDistanceSquare (grid_env s) b v"
  by (cases b; cases v) (simp add: grid_env_def)

lemma grid_dist_corner:
  "ApproxDistanceSquare (grid_env s) (ForGeoTile (grid_env s) l 0 0) (Flattened (grid_env s) (0, 0)) = 0"
  by (simp add: grid_env_def axis_gap_def)

lemma grid_corner_in_range:
  assumes "0 \<le> x" "x \<le> 100"
  shows "in_range (grid_env 100) (TileManager_new (grid_env 100)) (0, 0) (TileId 13 x 0)"
proof -
  have "x * x \<le> 100 * 100" using assms by (intro mult_mono) simp_all
  then have "100 * 100 * (x * x) \<le> (100000000 :: int)" by simp
  then have "real_of_int (100 * 100 * (x * x)) \<le> real_of_int 100000000"
    by (simp only: of_int_le_iff)
  moreover have "axis_gap x 1 0 = x" "axis_gap 0 1 0 = 0"
    using assms by (simp_all add: axis_gap_def)
  ultimately show ?thesis
    by (simp add: in_range_def grid_env_def TileManager_new_def)
qed

text \<open>Claim C1, as the spec states it: after \<^verbatim>\<open>LoadLocality\<close> the set of enqueued ids
  is exactly the set of leaf tiles in range, not resident and not loading. It is not
  on this input. On the grid in units of 100, a fresh manager
  and the viewer in the corner \<open>(0, 0)\<close>: the first leaf the walk reaches, \<open>(13, 0, 0)\<close>,
  is at distance 0 and is pushed to the front; no later leaf is closer, so each is
  pushed to the back while fewer than 100 are counted and dropped after that
  (line 121). The queue ends with at most 100 ids, while the 101 leaves \<open>(13, 0, 0)\<close>
  to \<open>(13, 100, 0)\<close> are all within the hires range of 10000.\<close>

theorem C1_enqueued_set_counterexample:
  "\<exists>tm' signal.
     LoadLocality (grid_env 100) (TileManager_new (grid_env 100)) (0, 0) 0 = Inr (tm', signal) \<and>
     length (queue_tm tm') \<le> 100 \<and>
     \<not> wanted_leaves (grid_env 100) (TileManager_new (grid_env 100)) (0, 0)
         \<subseteq> task_id ` set (queue_tm tm') \<and>
     task_id ` set (queue_tm tm') \<noteq>
       wanted_leaves (grid_env 100) (TileManager_new (grid_env 100)) (0, 0)"
proof -
  let ?E = "grid_env 100"
  let ?T = "TileManager_new ?E"
  let ?Tq = "?T\<lparr>queue_tm := []\<rparr>"
  let ?info = "new_RecLoadTilesInfo ?E (0, 0) 0"
  let ?W = "wanted_leaves ?E ?T (0, 0)"
  have hl: "hires_level_tm ?Tq = 13" by (simp add: TileManager_new_def)
  have "\<exists>r. RecLoadTiles ?E ?Tq ?info (Some (root_tm ?T)) 0 0 0 = Inr r"
    by (rule RecLoadTiles_returns) (simp_all add: hl)
  then obtain tm1 info1 rt where
    w: "RecLoadTiles ?E ?Tq ?info (Some (root_tm ?T)) 0 0 0 = Inr (tm1, info1, rt)"
    by (metis prod_cases3)
  from walk_Some [OF w] obtain r where rt: "rt = Some r" by auto
  have ns: "(0::int) AND SYNC ?E = 0" by (simp add: grid_env_def)
  have res: "LoadLocality ?E ?T (0, 0) 0 = Inr (tm1\<lparr>root_tm := r\<rparr>, queue_tm tm1 \<noteq> [])"
    using ns w rt by (simp add: LoadLocality_unfold)
  have root: "root_tm ?T = QuadNode (0, 0, 8192) None 0 None None None None"
    by (simp add: TileManager_new_def new_QuadNode_def grid_env_def)
  have nt: "no_tile (Some (root_tm ?T)) path" if "path \<noteq> []" for path
    using that unfolding root by (cases path) (simp_all add: no_tile_Cons)
  have z: "ApproxDistanceSquare ?E (ForGeoTile ?E l 0 0) (Flattened ?E (0, 0)) = 0" for l
    by (rule grid_dist_corner)
  have "capped tm1 info1"
  proof -
    have "viewer_pos ?info = (0, 0)" "queue_size ?info = 0"
      by (simp_all add: new_RecLoadTilesInfo_def grid_env_def)
    moreover have "bboxes_ok_at ?E (TileId 0 0 0) (Some (root_tm ?T))"
      using grid_new_boxes [of 100] by simp
    moreover have "no_tile (Some (root_tm ?T)) (replicate (nat (hires_level_tm ?Tq - 0)) 0)"
      by (rule nt) (simp add: hl)
    moreover have "loading_tm ?Tq \<noteq> TileId (hires_level_tm ?Tq) 0 0"
      by (simp add: TileManager_new_def)
    ultimately show ?thesis
      using walk_first_leaf [OF w grid_dist_nonneg z] by (simp add: hl)
  qed
  then have len: "length (queue_tm tm1) \<le> 100"
    by (simp add: capped_def)
  let ?S = "(\<lambda>x. TileId 13 x 0) ` {0..100}"
  have S: "?S \<subseteq> ?W"
  proof
    fix u assume "u \<in> ?S"
    then obtain x where x: "u = TileId 13 x 0" "0 \<le> x" "x \<le> 100" by auto
    have "place_path 13 x 0 \<noteq> []" using place_path_Cons [of 13 x 0] by auto
    then have "no_tile (Some (root_tm ?T)) (place_path 13 x 0)" by (rule nt)
    moreover note grid_corner_in_range [OF x(2,3)]
    ultimately show "u \<in> ?W"
      unfolding wanted_leaves_def using x by (simp add: TileManager_new_def)
  qed
  have cS: "card ?S = 101"
    by (subst card_image) (simp_all add: inj_on_def)
  have no: "\<not> ?W \<subseteq> task_id ` set (queue_tm tm1)"
  proof
    assume "?W \<subseteq> task_id ` set (queue_tm tm1)"
    with S have "?S \<subseteq> task_id ` set (queue_tm tm1)" by blast
    then have "card ?S \<le> card (task_id ` set (queue_tm tm1))"
      by (intro card_mono) simp_all
    also have "\<dots> \<le> card (set (queue_tm tm1))" by (rule card_image_le) simp
    also have "\<dots> \<le> length (queue_tm tm1)" by (rule card_length)
    finally show False using len cS by simp
  qed
  then have neq: "task_id ` set (queue_tm tm1) \<noteq> ?W" by blast
  have q: "queue_tm (tm1\<lparr>root_tm := r\<rparr>) = queue_tm tm1" by simp
  show ?thesis
    using res len no neq unfolding q [symmetric] by blast
qed

text \<open>The leaves a walk reaches can be fewer than the leaves in range. Where the
  tiles of level 1 are out of range and the leaves are not, the walk returns from each
  tile of level 1 (lines 91 and 99) and reaches no leaf: the queue stays empty, while
  the leaf \<open>(13, 0, 0)\<close> is in range, holds no tile and is not loading.\<close>

lemma reached_fewer_than_in_range:
  "(\<exists>tm'. LoadLocality steep_env (TileManager_new steep_env) () 0 = Inr (tm', False) \<and>
      queue_tm tm' = []) \<and>
   reached_leaves steep_env (TileManager_new steep_env) () = {} \<and>
   TileId 13 0 0 \<in> wanted_leaves steep_env (TileManager_new steep_env) ()"
proof -
  let ?E = steep_env
  let ?T = "TileManager_new ?E"
  have a: "\<exists>tm'. LoadLocality ?E ?T () 0 = Inr (tm', False) \<and> queue_tm tm' = []"
    by (simp add: RecLoadTiles.simps LoadLocality_def TileManager_new_def new_QuadNode_def
        new_RecLoadTilesInfo_def RecLoadTiles_visit_def RecLoadTiles_leaf_def int_ok_def
        steep_env_def Let_def)
  have "\<not> in_view ?E ?T () (TileId 0 0 0) (place_path 13 x y)" for x y
  proof -
    obtain i rest where p: "place_path 13 x y = i # rest"
      using place_path_Cons [of 13 x y] by auto
    have "i < 4" using place_path_lt4 [of 13 x y] unfolding p by simp
    then have "tid_level (quadrant (TileId 0 0 0) i) = 1"
      by (simp add: tid_level_quadrant)
    then have "\<not> in_range ?E ?T () (quadrant (TileId 0 0 0) i)"
      by (simp add: in_range_def steep_env_def TileManager_new_def)
    then have "\<not> in_view ?E ?T () (quadrant (TileId 0 0 0) i) rest"
      using in_view_head [of ?E ?T "()" "quadrant (TileId 0 0 0) i" rest] by blast
    then show ?thesis unfolding p by (simp del: quadrant.simps)
  qed
  then have b: "reached_leaves ?E ?T () = {}"
    by (simp add: reached_leaves_def TileManager_new_def)
  have "no_tile (Some (root_tm ?T)) (place_path 13 0 0)"
    unfolding TileManager_new_def new_QuadNode_def by (simp add: no_tile_fresh_root)
  moreover have "in_range ?E ?T () (TileId 13 0 0)"
    by (simp add: in_range_def steep_env_def TileManager_new_def)
  ultimately have c: "TileId 13 0 0 \<in> wanted_leaves ?E ?T ()"
    unfolding wanted_leaves_def by (simp add: TileManager_new_def)
  from a b c show ?thesis by blast
qed

text \<open>Claim C1, amended. Take any sequence of \<^verbatim>\<open>LoadLocality\<close> calls for one viewer,
  with any flags, on a manager whose hires level is between 0 and 30 and whose nodes
  carry the bounding boxes of their addresses, and then one more call. Every call
  returns, and the last one only adds tasks, in front and behind, to the queue it
  starts with: the empty queue without the SYNC flag, the queue as it stood with it.
  The ids of the tasks it adds are leaves the walk reaches on the manager the sequence
  began with (the leaf and every tile above it in range, no tile, not loading), and
  they are all of those leaves when the call adds fewer than 100 tasks. The leaves
  reached are among the leaves of the claim (in range, no tile, not loading), and are
  all of them in a geometry where a tile is in range whenever one of its quadrants
  is.\<close>

theorem C1_enqueued_set:
  assumes "0 \<le> hires_level_tm tm" and "hires_level_tm tm \<le> 30"
    and "bboxes_ok env (TileId 0 0 0) (root_tm tm)"
  shows "\<exists>tm1 tm2 signal fr bk.
     LoadLocality_calls env tm viewer calls = Inr tm1 \<and>
     LoadLocality env tm1 viewer flags = Inr (tm2, signal) \<and>
     queue_tm tm2 = fr @ (if flags AND SYNC env = 0 then [] else queue_tm tm1) @ bk \<and>
     task_id ` set (fr @ bk) \<subseteq> reached_leaves env tm (GetPos env viewer) \<and>
     (length (fr @ bk) < 100 \<longrightarrow>
        task_id ` set (fr @ bk) = reached_leaves env tm (GetPos env viewer)) \<and>
     reached_leaves env tm (GetPos env viewer) \<subseteq> wanted_leaves env tm (GetPos env viewer) \<and>
     (range_monotone env tm (GetPos env viewer) \<longrightarrow>
        reached_leaves env tm (GetPos env viewer) = wanted_leaves env tm (GetPos env viewer))"
proof -
  from LoadLocality_calls_frame [OF assms, of viewer calls] obtain tm1 where
    c: "LoadLocality_calls env tm viewer calls = Inr tm1"
    and f: "hires_level_tm tm1 = hires_level_tm tm" "hires_range_tm tm1 = hires_range_tm tm"
      "loading_tm tm1 = loading_tm tm"
    and b: "bboxes_ok env (TileId 0 0 0) (root_tm tm1)"
    and n: "\<forall>path. no_tile (Some (root_tm tm1)) path = no_tile (Some (root_tm tm)) path"
    by (elim exE conjE)
  have hl1: "0 \<le> hires_level_tm tm1" "hires_level_tm tm1 \<le> 30"
    using assms(1,2) f(1) by simp_all
  from LoadLocality_adds [OF hl1 b, of viewer flags] obtain tm2 signal fr bk where
    r: "LoadLocality env tm1 viewer flags = Inr (tm2, signal)"
    and f2: "hires_level_tm tm2 = hires_level_tm tm1" "hires_range_tm tm2 = hires_range_tm tm1"
      "loading_tm tm2 = loading_tm tm1"
    and b2: "bboxes_ok env (TileId 0 0 0) (root_tm tm2)"
    and n2: "\<forall>path. no_tile (Some (root_tm tm2)) path = no_tile (Some (root_tm tm1)) path"
    and q: "queue_tm tm2 = fr @ (if flags AND SYNC env = 0 then [] else queue_tm tm1) @ bk"
      "task_id ` set (fr @ bk) \<subseteq> reached_leaves env tm1 (GetPos env viewer)"
      "length (fr @ bk) < 100 \<longrightarrow>
        task_id ` set (fr @ bk) = reached_leaves env tm1 (GetPos env viewer)"
    by (elim exE conjE)
  note e = reached_leaves_cong [OF f n, of env "GetPos env viewer"]
  note s = reached_wanted [OF assms(1), of env "GetPos env viewer"]
  have m: "range_monotone env tm (GetPos env viewer) \<longrightarrow>
        reached_leaves env tm (GetPos env viewer) = wanted_leaves env tm (GetPos env viewer)"
    using reached_monotone [OF assms(1), of env "GetPos env viewer"] by (rule impI)
  note q' = q(2,3) [unfolded e]
  show ?thesis
    apply (rule exI [of _ tm1])
    apply (rule exI [of _ tm2])
    apply (rule exI [of _ signal])
    apply (rule exI [of _ fr])
    apply (rule exI [of _ bk])
    apply (intro conjI)
          apply (rule c)
         apply (rule r)
        apply (rule q(1))
       apply (rule q'(1))
      apply (rule q'(2))
     apply (rule s)
    apply (rule m)
    done
qed

text \<open>The manager at work holds the tile of \<open>(13, 0, 0)\<close>, is loading \<open>(13, 1, 0)\<close>, has
  the generation 1 and four tasks in its queue.\<close>

lemma busy_tm_eval:
  "busy_tm =
     \<lparr>root_tm = QuadNode (0, 0, 8192) None 0 (Some (QuadNode (0, 0, 4096) None 0
       (Some (QuadNode (0, 0, 2048) None 0 (Some (QuadNode (0, 0, 1024) None 0 (Some
       (QuadNode (0, 0, 512) None 0 (Some (QuadNode (0, 0, 256) None 0 (Some (QuadNode (0,
       0, 128) None 0 (Some (QuadNode (0, 0, 64) None 0 (Some (QuadNode (0, 0, 32) None 0
       (Some (QuadNode (0, 0, 16) None 0 (Some (QuadNode (0, 0, 8) None 0 (Some (QuadNode
       (0, 0, 4) None 0 (Some (QuadNode (0, 0, 2) None 0 (Some (QuadNode (0, 0, 1) (Some 0)
       0 None None None None)) (Some (QuadNode (1, 0, 1) None 0 None None None None)) (Some
       (QuadNode (0, 1, 1) None 0 None None None None)) (Some (QuadNode (1, 1, 1) None 0
       None None None None)))) (Some (QuadNode (2, 0, 2) None 0 (Some (QuadNode (2, 0, 1)
       None 0 None None None None)) None None None)) (Some (QuadNode (0, 2, 2) None 0 (Some
       (QuadNode (0, 2, 1) None 0 None None None None)) None None None)) None)) None None
       None)) None None None)) None None None)) None None None)) None None None)) None None
       None)) None None None)) None None None)) None None None)) None None None)) None None
       None, generation_tm = 1, queue_tm = [TileTask (TileId 13 0 1) (0, 1, 1), TileTask
       (TileId 13 1 1) (1, 1, 1), TileTask (TileId 13 2 0) (2, 0, 1), TileTask (TileId 13 0
       2) (0, 2, 1)], loading_tm = TileId 13 1 0, lowres_level_tm = 8, hires_level_tm = 13,
       lowres_range_tm = 1000000, hires_range_tm = 10000, thread_die_flag_tm = False\<rparr>"
  by (simp add: busy_tm_def walk_eval Let_def LoadingThreadFunc_take_def LoadingThreadFunc_place_def
      nchild_def)

text \<open>On the manager at work, of the six leaves in range one holds a tile and one is
  loading. A call without the SYNC flag and one with it leave the four others in the
  queue twice; one more call without the flag clears the queue and adds the four.\<close>

theorem C1_enqueued_set_witness:
  "loading_tm busy_tm = TileId 13 1 0 \<and>
   \<not> no_tile (Some (root_tm busy_tm)) (place_path 13 0 0) \<and>
   (case LoadLocality_calls (grid_env 5000) busy_tm (0, 0) [0, 1] of
      Inl f \<Rightarrow> False
    | Inr tm1 \<Rightarrow>
        queue_tm tm1 =
          [TileTask (TileId 13 0 1) (0, 1, 1), TileTask (TileId 13 1 1) (1, 1, 1),
           TileTask (TileId 13 2 0) (2, 0, 1), TileTask (TileId 13 0 2) (0, 2, 1),
           TileTask (TileId 13 0 1) (0, 1, 1), TileTask (TileId 13 1 1) (1, 1, 1),
           TileTask (TileId 13 2 0) (2, 0, 1), TileTask (TileId 13 0 2) (0, 2, 1)] \<and>
        (case LoadLocality (grid_env 5000) tm1 (0, 0) 0 of
           Inl f \<Rightarrow> False
         | Inr (tm2, signal) \<Rightarrow>
             signal \<and>
             queue_tm tm2 =
               [TileTask (TileId 13 0 1) (0, 1, 1), TileTask (TileId 13 1 1) (1, 1, 1),
                TileTask (TileId 13 2 0) (2, 0, 1), TileTask (TileId 13 0 2) (0, 2, 1)])) \<and>
   reached_leaves (grid_env 5000) busy_tm (0, 0) =
     {TileId 13 0 1, TileId 13 1 1, TileId 13 2 0, TileId 13 0 2} \<and>
   wanted_leaves (grid_env 5000) busy_tm (0, 0) =
     {TileId 13 0 1, TileId 13 1 1, TileId 13 2 0, TileId 13 0 2}"
proof -
  let ?E = "grid_env 5000"
  let ?Q = "[TileTask (TileId 13 0 1) (0, 1, 1), TileTask (TileId 13 1 1) (1, 1, 1),
    TileTask (TileId 13 2 0) (2, 0, 1), TileTask (TileId 13 0 2) (0, 2, 1)]
    :: (int \<times> int \<times> int) TileTask list"
  have h: "hires_level_tm busy_tm = 13" by (simp add: busy_tm_eval)
  have g: "GetPos ?E (0, 0) = (0, 0)" and sy: "(0::int) AND SYNC ?E = 0"
    by (simp_all add: grid_env_def)
  have a1: "0 \<le> hires_level_tm busy_tm" and a2: "hires_level_tm busy_tm \<le> 30"
    by (simp_all add: h)
  have a3: "bboxes_ok ?E (TileId 0 0 0) (root_tm busy_tm)"
    by (simp add: busy_tm_eval bboxes_ok.simps grid_env_def)
  have l: "loading_tm busy_tm = TileId 13 1 0" by (simp add: busy_tm_eval)
  have t: "\<not> no_tile (Some (root_tm busy_tm)) (place_path 13 0 0)"
    by (simp add: busy_tm_eval no_tile_def nchild_def eval_nat_numeral)
  have ev: "\<exists>t. LoadLocality_calls ?E busy_tm (0, 0) [0, 1] = Inr t \<and> queue_tm t = ?Q @ ?Q \<and>
      (\<exists>t2. LoadLocality ?E t (0, 0) 0 = Inr (t2, True) \<and> queue_tm t2 = ?Q)"
    by (simp add: busy_tm_eval walk_eval Let_def)
  from C1_enqueued_set [OF a1 a2 a3, of "(0, 0)" "[0, 1]" 0] obtain tm1 tm2 signal fr bk where
    c: "LoadLocality_calls ?E busy_tm (0, 0) [0, 1] = Inr tm1"
    and r: "LoadLocality ?E tm1 (0, 0) 0 = Inr (tm2, signal)"
    and q: "queue_tm tm2 = fr @ (if 0 AND SYNC ?E = 0 then [] else queue_tm tm1) @ bk"
      "task_id ` set (fr @ bk) \<subseteq> reached_leaves ?E busy_tm (0, 0)"
      "length (fr @ bk) < 100 \<longrightarrow> task_id ` set (fr @ bk) = reached_leaves ?E busy_tm (0, 0)"
      "reached_leaves ?E busy_tm (0, 0) \<subseteq> wanted_leaves ?E busy_tm (0, 0)"
      "range_monotone ?E busy_tm (0, 0) \<longrightarrow>
         reached_leaves ?E busy_tm (0, 0) = wanted_leaves ?E busy_tm (0, 0)"
    unfolding g by (elim exE conjE)
  from ev c have q1: "queue_tm tm1 = ?Q @ ?Q"
    and "\<exists>t2. LoadLocality ?E tm1 (0, 0) 0 = Inr (t2, True) \<and> queue_tm t2 = ?Q"
    by auto
  with r have sg: "signal" and q2: "queue_tm tm2 = ?Q" by auto
  from q(1) q2 have fb: "fr @ bk = ?Q" by (simp add: sy)
  have "length (fr @ bk) < 100" unfolding fb by simp
  with q(3) have re: "reached_leaves ?E busy_tm (0, 0) =
      {TileId 13 0 1, TileId 13 1 1, TileId 13 2 0, TileId 13 0 2}"
    unfolding fb by auto
  have "range_monotone ?E busy_tm (0, 0)"
    by (rule grid_range_monotone) (simp add: h)
  with q(5) re have wa: "wanted_leaves ?E busy_tm (0, 0) =
      {TileId 13 0 1, TileId 13 1 1, TileId 13 2 0, TileId 13 0 2}"
    by simp
  show ?thesis
    using l t q1 q2 sg re wa by (simp only: c r sum.case prod.case simp_thms append.simps)
qed

end
